theory Spec2Isabelle
  imports Complex_Main "HOL-Library.AList"
begin

section \<open>Data model\<close>

text \<open>
  The queue entries built by \<^verbatim>\<open>handleFiles\<close> (app script, lines 137-147).  The
  JavaScript status strings \<^verbatim>\<open>'pending'\<close>, \<^verbatim>\<open>'processing'\<close>, \<^verbatim>\<open>'completed'\<close> and
  \<^verbatim>\<open>'error'\<close> are the four constructors of \<open>status\<close>; the specification calls the
  last one Failed.
\<close>

datatype status = Pending | Processing | Completed | Error

text \<open>
  A blob is the mime tag together with the encoded content.  For a video the content is
  the list of frames that were drawn on the recording canvas; for an image it is the one
  transformed picture.  Frames and pictures are opaque values produced by the watermark
  engine, numbered by \<open>nat\<close>.
\<close>

type_synonym frame = nat

record blob =
  btype :: string
  bdata :: "frame list"

text \<open>
  The input file.  \<open>content\<close> stands for the bytes; the external collaborators
  (image loader, video element, engine) are functions of it.
\<close>

record srcfile =
  fname :: string
  ftype :: string
  content :: nat

text \<open>
  The item of line 137.  \<open>ident\<close> is its \<^verbatim>\<open>id\<close> and \<open>ifile\<close> its \<^verbatim>\<open>file\<close>;
  \<open>originalImg\<close> is the handle of the loaded image, \<open>None\<close> for \<^verbatim>\<open>null\<close>.  The object
  URLs \<^verbatim>\<open>originalUrl\<close> and \<^verbatim>\<open>processedUrl\<close> serve the previews only and are left out.
  The field \<open>history\<close> is not in the code: it records every value that is assigned to
  \<^verbatim>\<open>item.status\<close>, in order, starting with the \<^verbatim>\<open>'pending'\<close> of line 142.
\<close>

record item =
  ident :: nat
  ifile :: srcfile
  name :: string
  isVideo :: bool
  status :: status
  originalImg :: "nat option"
  processedBlob :: "blob option"
  history :: "status list"

section \<open>Packaging: \<^verbatim>\<open>downloadAll\<close>\<close>

text \<open>
  \<^verbatim>\<open>item.name.replace(/\.[^.]+$/, '')\<close>: the pattern matches a dot followed by one or
  more characters other than a dot, up to the end of the string.  Such a match exists
  exactly when the string has a dot and its last dot is not the last character; the match
  then starts at the last dot and is deleted.
\<close>

definition strip_ext :: "string \<Rightarrow> string" where
  "strip_ext s =
     (let r = rev s;
          suffix = takeWhile (\<lambda>c. c \<noteq> CHR ''.'') r;
          rest = dropWhile (\<lambda>c. c \<noteq> CHR ''.'') r
      in if rest = [] \<or> suffix = [] then s else rev (tl rest))"

text \<open>\<^verbatim>\<open>const ext = item.isVideo ? 'webm' : 'png'\<close>\<close>

definition ext_of :: "item \<Rightarrow> string" where
  "ext_of it = (if isVideo it then ''webm'' else ''png'')"

text \<open>The template string \<^verbatim>\<open>`unwatermarked_${...}.${ext}`\<close> (lines 400 and 411).\<close>

definition filename :: "item \<Rightarrow> string" where
  "filename it = ''unwatermarked_'' @ strip_ext (name it) @ ''.'' @ ext_of it"

text \<open>
  The archive object of the JSZip library is a table from entry names to data.  Its method
  \<^verbatim>\<open>file(name, data)\<close> adds the entry, or replaces the data of the entry that already
  has this name.  The table is an association list in insertion order.
\<close>

type_synonym archive = "(string \<times> blob option) list"

fun zip_file :: "string \<Rightarrow> blob option \<Rightarrow> archive \<Rightarrow> archive" where
  "zip_file n d [] = [(n, d)]"
| "zip_file n d ((k, v) # z) = (if k = n then (k, d) # z else (k, v) # zip_file n d z)"

text \<open>The body of \<^verbatim>\<open>completed.forEach\<close> (lines 409-413).\<close>

definition add_entry :: "archive \<Rightarrow> item \<Rightarrow> archive" where
  "add_entry z it = zip_file (filename it) (processedBlob it) z"

definition completed_items :: "item list \<Rightarrow> item list" where
  "completed_items q = filter (\<lambda>it. status it = Completed) q"

text \<open>
  \<^verbatim>\<open>downloadAll\<close> (lines 404-420).  The result is \<open>None\<close> when the function returns at
  line 406 before an archive object exists, and the archive handed to
  \<^verbatim>\<open>generateAsync\<close> otherwise.
\<close>

definition downloadAll :: "item list \<Rightarrow> archive option" where
  "downloadAll q =
     (let completed = completed_items q
      in if length completed = 0 then None
         else Some (foldl add_entry [] completed))"

section \<open>JavaScript numbers\<close>

text \<open>
  A JavaScript number is a binary64 value of IEEE 754: a finite number, an infinity or
  \<^verbatim>\<open>NaN\<close>.  The finite numbers are held as rationals; the sign of a zero is not
  represented.
\<close>

datatype number = Fin rat | PosInf | NegInf | NaN

text \<open>
  Every arithmetic operation rounds its exact result to the nearest binary64 number, a
  tie to the one with the even significand.  \<open>bits n\<close> is the number of binary digits of
  \<open>n\<close>, and \<open>expo x\<close> is the exponent \<open>e\<close> of a positive \<open>x\<close>, the integer with
  \<open>2 ^ e \<le> x < 2 ^ (e + 1)\<close>.  The numbers of that range are the multiples of
  \<open>2 ^ (e - 52)\<close>, and the multiples of \<open>2 ^ (- 1074)\<close> when \<open>e\<close> is below \<open>- 1022\<close>;
  \<open>rne\<close> rounds to the nearest integer, a tie to the even one, and \<open>grid\<close> rounds to the
  nearest such multiple.  A result that is rounded beyond the largest finite number is an
  infinity.
\<close>

fun bits :: "nat \<Rightarrow> nat" where
  "bits n = (if n = 0 then 0 else Suc (bits (n div 2)))"

declare bits.simps [simp del]

definition expo :: "rat \<Rightarrow> int" where
  "expo x = (if 1 \<le> x then int (bits (nat \<lfloor>x\<rfloor>)) - 1
             else - int (bits (nat (\<lceil>1 / x\<rceil> - 1))))"

definition rne :: "rat \<Rightarrow> int" where
  "rne x =
     (let f = \<lfloor>x\<rfloor>; r = x - of_int f
      in if r < 1 / 2 then f else if 1 / 2 < r then f + 1
         else if even f then f else f + 1)"

definition ulp_exp :: "rat \<Rightarrow> int" where
  "ulp_exp x = max (expo \<bar>x\<bar> - 52) (- 1074)"

definition grid :: "rat \<Rightarrow> rat" where
  "grid x = (if x = 0 then 0 else of_int (rne (x / 2 powi ulp_exp x)) * 2 powi ulp_exp x)"

definition max_double :: rat where
  "max_double = (2 ^ 53 - 1) * 2 ^ 971"

definition fl :: "rat \<Rightarrow> number" where
  "fl x = (let y = grid x
           in if max_double < y then PosInf else if y < - max_double then NegInf else Fin y)"

text \<open>
  The operators \<^verbatim>\<open>+\<close>, \<^verbatim>\<open>/\<close>, \<^verbatim>\<open>*\<close> and \<^verbatim>\<open><=\<close>, the functions \<^verbatim>\<open>Math.min\<close> and
  \<^verbatim>\<open>Math.round\<close>, and the numbers that \<^verbatim>\<open>||\<close> takes for false.  \<^verbatim>\<open>Math.round\<close> yields
  the integer \<open>\<lfloor>x + 1/2\<rfloor>\<close> exactly.
\<close>

fun fadd :: "number \<Rightarrow> number \<Rightarrow> number" where
  "fadd (Fin x) (Fin y) = fl (x + y)"
| "fadd NaN b = NaN"
| "fadd a NaN = NaN"
| "fadd PosInf NegInf = NaN"
| "fadd NegInf PosInf = NaN"
| "fadd PosInf b = PosInf"
| "fadd NegInf b = NegInf"
| "fadd (Fin x) b = b"

fun fdiv :: "number \<Rightarrow> number \<Rightarrow> number" where
  "fdiv (Fin x) (Fin y) =
     (if y = 0 then (if x = 0 then NaN else if 0 < x then PosInf else NegInf)
      else fl (x / y))"
| "fdiv NaN b = NaN"
| "fdiv a NaN = NaN"
| "fdiv (Fin x) b = Fin 0"
| "fdiv PosInf (Fin y) = (if 0 \<le> y then PosInf else NegInf)"
| "fdiv NegInf (Fin y) = (if 0 \<le> y then NegInf else PosInf)"
| "fdiv a b = NaN"

fun fmul :: "number \<Rightarrow> number \<Rightarrow> number" where
  "fmul (Fin x) (Fin y) = fl (x * y)"
| "fmul NaN b = NaN"
| "fmul a NaN = NaN"
| "fmul PosInf (Fin y) = (if y = 0 then NaN else if 0 < y then PosInf else NegInf)"
| "fmul NegInf (Fin y) = (if y = 0 then NaN else if 0 < y then NegInf else PosInf)"
| "fmul (Fin x) PosInf = (if x = 0 then NaN else if 0 < x then PosInf else NegInf)"
| "fmul (Fin x) NegInf = (if x = 0 then NaN else if 0 < x then NegInf else PosInf)"
| "fmul PosInf PosInf = PosInf"
| "fmul NegInf NegInf = PosInf"
| "fmul a b = NegInf"

fun nle :: "number \<Rightarrow> number \<Rightarrow> bool" where
  "nle (Fin x) (Fin y) = (x \<le> y)"
| "nle NaN b = False"
| "nle a NaN = False"
| "nle NegInf b = True"
| "nle a PosInf = True"
| "nle a b = False"

fun nmin :: "number \<Rightarrow> number \<Rightarrow> number" where
  "nmin NaN b = NaN"
| "nmin a NaN = NaN"
| "nmin a b = (if nle a b then a else b)"

fun nround :: "number \<Rightarrow> number" where
  "nround (Fin x) = Fin (of_int \<lfloor>x + 1 / 2\<rfloor>)"
| "nround a = a"

fun falsy :: "number \<Rightarrow> bool" where
  "falsy (Fin x) = (x = 0)"
| "falsy NaN = True"
| "falsy a = False"

section \<open>The video pipeline: \<^verbatim>\<open>removeWatermarkFromVideo\<close>\<close>

text \<open>
  The code has no error classes: every failure is a JavaScript \<^verbatim>\<open>Error\<close> told apart by
  where it is raised.  \<open>MediaRecorderUnsupported\<close> is thrown at line 17 of the video
  module, \<open>FailedToLoadVideo\<close> is the rejection of the \<^verbatim>\<open>error\<close> listener of the video
  element (line 31), \<open>RecorderError\<close> the rejection of \<^verbatim>\<open>recorder.onerror\<close> (line 66),
  \<open>NotSupportedError\<close> what the constructor or the method \<^verbatim>\<open>start\<close> of the recorder
  throws, \<open>EngineError\<close> whatever the watermark engine throws, \<open>LoadImageError\<close> the
  rejection of \<^verbatim>\<open>loadImage\<close> and \<open>TypeError\<close> the exception of
  \<^verbatim>\<open>URL.createObjectURL(null)\<close>, of a property access on \<^verbatim>\<open>null\<close> and of an assignment
  of a number that is not finite to \<^verbatim>\<open>video.currentTime\<close>.
\<close>

datatype error =
    MediaRecorderUnsupported
  | FailedToLoadVideo
  | RecorderError
  | NotSupportedError
  | EngineError
  | LoadImageError
  | TypeError

text \<open>
  What the video element answers while the pipeline is suspended.  After
  \<^verbatim>\<open>video.src = url\<close> either \<^verbatim>\<open>loadedmetadata\<close> or \<^verbatim>\<open>error\<close> fires, or nothing does.
  While \<^verbatim>\<open>await seekTo(video, t)\<close> is pending, the element fires \<^verbatim>\<open>seeked\<close>, or it fires
  \<^verbatim>\<open>error\<close>, or nothing arrives.  After \<^verbatim>\<open>recorder.stop()\<close> the recorder fires \<^verbatim>\<open>stop\<close>
  or \<^verbatim>\<open>error\<close>, or nothing.
\<close>

datatype load_event = LoadedMetadata | LoadError | LoadNoEvent

datatype seek_event = Seeked | SeekVideoError | SeekNoEvent

datatype stop_event = Stopped | StopRecorderError | StopNoEvent

text \<open>
  The behaviour of one source file in the video element: \<open>duration\<close> is
  \<^verbatim>\<open>video.duration\<close> and \<open>detectedFPS\<close> the number that \<^verbatim>\<open>await detectFPS(video)\<close> yields
  (it depends on callback timing only).
\<close>

record media =
  onLoad :: load_event
  duration :: number
  detectedFPS :: number
  onSeek :: "rat \<Rightarrow> seek_event"

text \<open>
  The behaviour of a recorder on the stream of one source file: whether
  \<^verbatim>\<open>recorder.start()\<close> throws, whether the recorder fires its \<^verbatim>\<open>error\<close> event while the
  seek to a time is awaited, and what it fires after \<^verbatim>\<open>recorder.stop()\<close>.
\<close>

record encoder =
  startThrows :: bool
  errorAt :: "rat \<Rightarrow> bool"
  onStop :: stop_event

text \<open>
  The runtime: the capabilities of the browser and the external collaborators
  (\<^verbatim>\<open>loadImage\<close> of the utilities module, the watermark engine, \<^verbatim>\<open>canvas.toBlob\<close>),
  each a function of what it is called on.  \<open>recorderOf ty f\<close> is the recorder that the
  constructor returns for the type \<open>ty\<close> and the stream of the file \<open>f\<close>.
  \<open>engineFrame f t\<close> is the result of \<^verbatim>\<open>engine.removeWatermarkFromImage(video)\<close> with the
  element of file \<open>f\<close> positioned at time \<open>t\<close>; \<open>engineImage\<close> takes
  \<^verbatim>\<open>item.originalImg\<close>, which is \<^verbatim>\<open>null\<close> before the image is loaded.
  \<open>defaultMimeType\<close> is the type a recorder reports when it was constructed with the
  empty type.  \<open>checkOriginal f\<close> says whether the promise of \<^verbatim>\<open>checkOriginal(file)\<close> of the
  utilities module is fulfilled.
\<close>

record runtime =
  mediaRecorderDefined :: bool
  isTypeSupported :: "string \<Rightarrow> bool"
  defaultMimeType :: string
  recorderOf :: "string \<Rightarrow> srcfile \<Rightarrow> encoder"
  mediaOf :: "srcfile \<Rightarrow> media"
  engineFrame :: "srcfile \<Rightarrow> rat \<Rightarrow> error + frame"
  loadImage :: "srcfile \<Rightarrow> error + nat"
  engineImage :: "nat option \<Rightarrow> error + nat"
  toBlob :: "nat \<Rightarrow> blob option"
  checkOriginal :: "srcfile \<Rightarrow> bool"

text \<open>\<^verbatim>\<open>getSupportedMimeType\<close> (lines 153-164): the first supported type, else the empty string.\<close>

definition mime_types :: "string list" where
  "mime_types =
     [''video/webm;codecs=vp9'', ''video/webm;codecs=vp8'', ''video/webm'', ''video/mp4'']"

fun first_supported :: "(string \<Rightarrow> bool) \<Rightarrow> string list \<Rightarrow> string" where
  "first_supported supported [] = []"
| "first_supported supported (ty # tys) =
     (if supported ty then ty else first_supported supported tys)"

definition getSupportedMimeType :: "runtime \<Rightarrow> string" where
  "getSupportedMimeType rt = first_supported (isTypeSupported rt) mime_types"

text \<open>
  The constructor of \<^verbatim>\<open>MediaRecorder\<close> (line 51) throws when it is given a type that is
  not supported; the empty type leaves the choice to the recorder and is accepted.
\<close>

definition constructor_throws :: "runtime \<Rightarrow> string \<Rightarrow> bool" where
  "constructor_throws rt mimeType = (mimeType \<noteq> [] \<and> \<not> isTypeSupported rt mimeType)"

text \<open>
  The argument of one \<^verbatim>\<open>onProgress\<close> call (line 86):
  \<^verbatim>\<open>Math.min(100, Math.round((currentTime / duration) * 100))\<close>.
\<close>

definition progress_of :: "number \<Rightarrow> number \<Rightarrow> number" where
  "progress_of currentTime D = nmin (Fin 100) (nround (fmul (fdiv currentTime D) (Fin 100)))"

text \<open>
  The observable effects of one run: whether the object URL of line 26 exists and
  whether it was revoked, the state of the recorder, the times sought, the frames drawn
  on the recording canvas and requested from its track, and the arguments of the progress
  callback, in order.  A recorder is inactive when it is constructed, recording after
  \<^verbatim>\<open>start\<close>, and inactive again after \<^verbatim>\<open>stop\<close> or after an error of its own.  Both
  callers pass a progress callback.
\<close>

datatype recorder_state = NoRecorder | Inactive | Recording

record pstate =
  urlCreated :: bool
  urlRevoked :: bool
  recorderState :: recorder_state
  seeks :: "rat list"
  drawn :: "frame list"
  emitted :: "number list"

definition pstate0 :: pstate where
  "pstate0 = \<lparr>urlCreated = False, urlRevoked = False, recorderState = NoRecorder,
              seeks = [], drawn = [], emitted = []\<rparr>"

text \<open>
  How the frame loop is left: \<open>Rejected e\<close> by an event listener that has rejected the
  promise and revoked the URL itself (lines 29-32 and 64-67), \<open>Thrown e\<close> by an exception
  that the \<^verbatim>\<open>catch\<close> of line 92 handles, \<open>Done\<close> by the loop condition.
\<close>

datatype loop_exit = Done | Thrown error | Rejected error

text \<open>
  The loop of lines 75-88, \<^verbatim>\<open>for (currentTime = 0; currentTime <= duration;
  currentTime += frameInterval)\<close>, with \<open>t\<close> the value of \<^verbatim>\<open>currentTime\<close>.  The assignment
  of \<^verbatim>\<open>seekTime\<close> to \<^verbatim>\<open>video.currentTime\<close> (line 109) throws when the number is not finite.
  The result is \<open>None\<close> when the loop never ends, or waits for an event that never
  arrives.  The effects are those up to the settlement of the promise.
\<close>

partial_function (option) frame_loop ::
  "runtime \<Rightarrow> srcfile \<Rightarrow> encoder \<Rightarrow> number \<Rightarrow> number \<Rightarrow> number \<Rightarrow> pstate
   \<Rightarrow> (loop_exit \<times> pstate) option" where
  "frame_loop rt f recorder D frameInterval t s =
     (if nle t D then
        (case nmin t D of
           Fin seekTime \<Rightarrow>
             (let s1 = s\<lparr>seeks := seeks s @ [seekTime]\<rparr>
              in if errorAt recorder seekTime
                 then Some (Rejected RecorderError,
                            s1\<lparr>urlRevoked := True, recorderState := Inactive\<rparr>)
                 else case onSeek (mediaOf rt f) seekTime of
                        SeekNoEvent \<Rightarrow> None
                      | SeekVideoError \<Rightarrow>
                          Some (Rejected FailedToLoadVideo, s1\<lparr>urlRevoked := True\<rparr>)
                      | Seeked \<Rightarrow>
                          (case engineFrame rt f seekTime of
                             Inl e \<Rightarrow> Some (Thrown e, s1)
                           | Inr processedCanvas \<Rightarrow>
                               frame_loop rt f recorder D frameInterval (fadd t frameInterval)
                                 (s1\<lparr>drawn := drawn s1 @ [processedCanvas],
                                     emitted := emitted s1 @ [progress_of t D]\<rparr>)))
         | PosInf \<Rightarrow> Some (Thrown TypeError, s)
         | NegInf \<Rightarrow> Some (Thrown TypeError, s)
         | NaN \<Rightarrow> Some (Thrown TypeError, s))
      else Some (Done, s))"

declare frame_loop.simps [code]

text \<open>
  \<^verbatim>\<open>removeWatermarkFromVideo\<close> (lines 15-98).  The result pairs the settlement of the
  returned promise (\<open>Inl\<close> a rejection, \<open>Inr\<close> the blob) with the effects; it is \<open>None\<close>
  when the promise is never settled.  An exception of the constructor (line 51) or of
  \<^verbatim>\<open>recorder.start()\<close> (line 69) is handled by the \<^verbatim>\<open>catch\<close> of line 92.
  \<^verbatim>\<open>(await detectFPS(video)) || 30\<close> replaces a falsy rate by 30.  \<^verbatim>\<open>recorder.stop()\<close> is
  called at line 91 only, after the loop.  The blob holds the frames that were drawn,
  tagged with \<^verbatim>\<open>recorder.mimeType\<close>.
\<close>

definition recorder_mimeType :: "runtime \<Rightarrow> string \<Rightarrow> string" where
  "recorder_mimeType rt mimeType = (if mimeType = [] then defaultMimeType rt else mimeType)"

definition removeWatermarkFromVideo ::
  "runtime \<Rightarrow> srcfile \<Rightarrow> ((error + blob) \<times> pstate) option" where
  "removeWatermarkFromVideo rt f =
     (if \<not> mediaRecorderDefined rt then Some (Inl MediaRecorderUnsupported, pstate0)
      else
        let video = mediaOf rt f;
            s0 = pstate0\<lparr>urlCreated := True\<rparr>
        in case onLoad video of
             LoadNoEvent \<Rightarrow> None
           | LoadError \<Rightarrow> Some (Inl FailedToLoadVideo, s0\<lparr>urlRevoked := True\<rparr>)
           | LoadedMetadata \<Rightarrow>
               (let mimeType = getSupportedMimeType rt
                in if constructor_throws rt mimeType
                   then Some (Inl NotSupportedError, s0\<lparr>urlRevoked := True\<rparr>)
                   else
                     let recorder = recorderOf rt mimeType f
                     in if startThrows recorder
                        then Some (Inl NotSupportedError,
                                   s0\<lparr>urlRevoked := True, recorderState := Inactive\<rparr>)
                        else
                          let s1 = s0\<lparr>recorderState := Recording\<rparr>;
                              fps = (if falsy (detectedFPS video) then Fin 30
                                     else detectedFPS video);
                              frameInterval = fdiv (Fin 1) fps
                          in case frame_loop rt f recorder (duration video) frameInterval
                                    (Fin 0) s1 of
                               None \<Rightarrow> None
                             | Some (Rejected e, s2) \<Rightarrow> Some (Inl e, s2)
                             | Some (Thrown e, s2) \<Rightarrow> Some (Inl e, s2\<lparr>urlRevoked := True\<rparr>)
                             | Some (Done, s2) \<Rightarrow>
                                 (let s3 = s2\<lparr>emitted := emitted s2 @ [Fin 100],
                                              recorderState := Inactive\<rparr>
                                  in case onStop recorder of
                                       StopNoEvent \<Rightarrow> None
                                     | StopRecorderError \<Rightarrow>
                                         Some (Inl RecorderError, s3\<lparr>urlRevoked := True\<rparr>)
                                     | Stopped \<Rightarrow>
                                         Some (Inr \<lparr>btype = recorder_mimeType rt mimeType,
                                                    bdata = drawn s3\<rparr>,
                                               s3\<lparr>urlRevoked := True\<rparr>))))"

section \<open>Auxiliary notions for the frame loop\<close>

text \<open>
  These are not in the code; the lemmas on the loop are stated with them.  \<open>iteration\<close>
  is one pass through the loop at the time \<open>t\<close>: the way in which the loop is left
  there (\<open>Inl\<close>), or the state with which it goes on (\<open>Inr\<close>).  \<open>sample t d i\<close> is the
  value of \<^verbatim>\<open>currentTime\<close> after \<open>i\<close> additions of the interval \<open>d\<close> to \<open>t\<close>.  \<open>continues\<close>
  says that the pass at a time runs to its end: the time is within the duration and
  finite, the recorder does not fail, the seek completes and the engine returns a frame.
  \<open>good_prefix\<close> says so of the first \<open>n\<close> passes, and \<open>advance\<close> is the state after them.
\<close>

definition iteration ::
  "runtime \<Rightarrow> srcfile \<Rightarrow> encoder \<Rightarrow> number \<Rightarrow> number \<Rightarrow> pstate
   \<Rightarrow> (loop_exit \<times> pstate) option + pstate" where
  "iteration rt f recorder D t s =
     (if nle t D then
        (case nmin t D of
           Fin seekTime \<Rightarrow>
             (let s1 = s\<lparr>seeks := seeks s @ [seekTime]\<rparr>
              in if errorAt recorder seekTime
                 then Inl (Some (Rejected RecorderError,
                                 s1\<lparr>urlRevoked := True, recorderState := Inactive\<rparr>))
                 else case onSeek (mediaOf rt f) seekTime of
                        SeekNoEvent \<Rightarrow> Inl None
                      | SeekVideoError \<Rightarrow>
                          Inl (Some (Rejected FailedToLoadVideo, s1\<lparr>urlRevoked := True\<rparr>))
                      | Seeked \<Rightarrow>
                          (case engineFrame rt f seekTime of
                             Inl e \<Rightarrow> Inl (Some (Thrown e, s1))
                           | Inr processedCanvas \<Rightarrow>
                               Inr (s1\<lparr>drawn := drawn s1 @ [processedCanvas],
                                       emitted := emitted s1 @ [progress_of t D]\<rparr>)))
         | PosInf \<Rightarrow> Inl (Some (Thrown TypeError, s))
         | NegInf \<Rightarrow> Inl (Some (Thrown TypeError, s))
         | NaN \<Rightarrow> Inl (Some (Thrown TypeError, s)))
      else Inl (Some (Done, s)))"

definition sample :: "number \<Rightarrow> number \<Rightarrow> nat \<Rightarrow> number" where
  "sample t frameInterval i = ((\<lambda>x. fadd x frameInterval) ^^ i) t"

fun fin :: "number \<Rightarrow> rat" where
  "fin (Fin x) = x"
| "fin a = 0"

definition continues :: "runtime \<Rightarrow> srcfile \<Rightarrow> encoder \<Rightarrow> number \<Rightarrow> number \<Rightarrow> bool" where
  "continues rt f recorder D t =
     (case t of
        Fin x \<Rightarrow> nle t D \<and> \<not> errorAt recorder x \<and> onSeek (mediaOf rt f) x = Seeked
                  \<and> \<not> isl (engineFrame rt f x)
      | PosInf \<Rightarrow> False | NegInf \<Rightarrow> False | NaN \<Rightarrow> False)"

definition good_prefix ::
  "runtime \<Rightarrow> srcfile \<Rightarrow> encoder \<Rightarrow> number \<Rightarrow> number \<Rightarrow> number \<Rightarrow> nat \<Rightarrow> bool" where
  "good_prefix rt f recorder D frameInterval t n =
     (\<forall>i<n. continues rt f recorder D (sample t frameInterval i))"

definition advance ::
  "runtime \<Rightarrow> srcfile \<Rightarrow> number \<Rightarrow> number \<Rightarrow> number \<Rightarrow> nat \<Rightarrow> pstate \<Rightarrow> pstate" where
  "advance rt f D frameInterval t n s =
     s\<lparr>seeks := seeks s @ map (\<lambda>i. fin (sample t frameInterval i)) [0..<n],
       drawn := drawn s
         @ map (\<lambda>i. projr (engineFrame rt f (fin (sample t frameInterval i)))) [0..<n],
       emitted := emitted s @ map (\<lambda>i. progress_of (sample t frameInterval i) D) [0..<n]\<rparr>"

text \<open>
  The frame rate and the interval that \<^verbatim>\<open>removeWatermarkFromVideo\<close> computes at lines
  71-72, the recorder it constructs, the state in which the loop is entered, the state
  after \<^verbatim>\<open>onProgress(100)\<close>, \<^verbatim>\<open>recorder.stop()\<close> and the revocation of the URL, and the
  loop as \<^verbatim>\<open>removeWatermarkFromVideo\<close> runs it.
\<close>

definition fps_of :: "media \<Rightarrow> number" where
  "fps_of video = (if falsy (detectedFPS video) then Fin 30 else detectedFPS video)"

definition frameInterval_of :: "media \<Rightarrow> number" where
  "frameInterval_of video = fdiv (Fin 1) (fps_of video)"

definition recorder_of :: "runtime \<Rightarrow> srcfile \<Rightarrow> encoder" where
  "recorder_of rt f = recorderOf rt (getSupportedMimeType rt) f"

definition recording :: pstate where
  "recording = pstate0\<lparr>urlCreated := True, recorderState := Recording\<rparr>"

definition finished :: "pstate \<Rightarrow> pstate" where
  "finished s = s\<lparr>emitted := emitted s @ [Fin 100], recorderState := Inactive,
                  urlRevoked := True\<rparr>"

definition loop_of :: "runtime \<Rightarrow> srcfile \<Rightarrow> (loop_exit \<times> pstate) option" where
  "loop_of rt f =
     frame_loop rt f (recorder_of rt f) (duration (mediaOf rt f))
       (frameInterval_of (mediaOf rt f)) (Fin 0) recording"

text \<open>A run is ready for the loop when the recorder exists and has started.\<close>

definition ready :: "runtime \<Rightarrow> srcfile \<Rightarrow> bool" where
  "ready rt f =
     (mediaRecorderDefined rt \<and> onLoad (mediaOf rt f) = LoadedMetadata
      \<and> \<not> startThrows (recorder_of rt f))"

section \<open>The batch scheduler: \<^verbatim>\<open>processQueue\<close>\<close>

text \<open>The module variables \<^verbatim>\<open>imageQueue\<close> and \<^verbatim>\<open>processedCount\<close> (lines 10-11).\<close>

record sched =
  imageQueue :: "item list"
  processedCount :: nat

text \<open>Every assignment to \<^verbatim>\<open>item.status\<close> (lines 322, 336, 346 and 369).\<close>

definition set_status :: "status \<Rightarrow> item \<Rightarrow> item" where
  "set_status st it = it\<lparr>status := st, history := history it @ [st]\<rparr>"

text \<open>
  The first \<^verbatim>\<open>Promise.all\<close> of \<^verbatim>\<open>processQueue\<close> (lines 293-315).  For a video only a
  thumbnail is set up; for an image \<^verbatim>\<open>await loadImage(item.file)\<close> either rejects, which
  ends the callback, or yields the image that is stored in \<^verbatim>\<open>item.originalImg\<close>.
\<close>

definition preload_item :: "runtime \<Rightarrow> item \<Rightarrow> error + item" where
  "preload_item rt it =
     (if isVideo it then Inr it
      else case loadImage rt (ifile it) of
             Inl e \<Rightarrow> Inl e
           | Inr img \<Rightarrow> Inr (it\<lparr>originalImg := Some img\<rparr>))"

text \<open>
  Every callback of the \<^verbatim>\<open>map\<close> runs; \<^verbatim>\<open>Promise.all\<close> rejects when one of them does.
  \<open>preload\<close> returns the queue after all callbacks and the rejections in queue order.
\<close>

definition preload :: "runtime \<Rightarrow> item list \<Rightarrow> item list \<times> error list" where
  "preload rt q =
     (map (\<lambda>it. case preload_item rt it of Inl e \<Rightarrow> it | Inr it' \<Rightarrow> it') q,
      List.map_filter (\<lambda>it. case preload_item rt it of Inl e \<Rightarrow> Some e | Inr it' \<Rightarrow> None) q)"

text \<open>
  The \<^verbatim>\<open>try\<close> block and its \<^verbatim>\<open>catch\<close> (lines 325-372) for an item that was just claimed.
  The result is the item afterwards and whether \<^verbatim>\<open>processedCount++\<close> (line 366) was
  executed; it is \<open>None\<close> when an awaited promise is never settled.  The cards with the
  elements \<^verbatim>\<open>result-\<close>, \<^verbatim>\<open>status-\<close> and \<^verbatim>\<open>download-\<close> of every item are created by
  \<^verbatim>\<open>createImageCard\<close> before \<^verbatim>\<open>processQueue\<close> is called (lines 161-162), so the element
  lookups succeed; \<^verbatim>\<open>engine.getWatermarkInfo\<close> computes geometry from two numbers and
  does not fail, but reading \<^verbatim>\<open>item.originalImg.width\<close> (line 347) throws when
  \<^verbatim>\<open>originalImg\<close> is \<^verbatim>\<open>null\<close>.  \<^verbatim>\<open>URL.createObjectURL(blob)\<close> (line 343) throws when
  \<^verbatim>\<open>toBlob\<close> delivered \<^verbatim>\<open>null\<close>.
\<close>

definition run_job :: "runtime \<Rightarrow> item \<Rightarrow> (item \<times> bool) option" where
  "run_job rt it =
     (if isVideo it then
        (case removeWatermarkFromVideo rt (ifile it) of
           None \<Rightarrow> None
         | Some (Inl e, effects) \<Rightarrow> Some (set_status Error it, False)
         | Some (Inr b, effects) \<Rightarrow>
             Some (set_status Completed (it\<lparr>processedBlob := Some b\<rparr>), True))
      else
        (case engineImage rt (originalImg it) of
           Inl e \<Rightarrow> Some (set_status Error it, False)
         | Inr result \<Rightarrow>
             (case toBlob rt result of
                None \<Rightarrow> Some (set_status Error (it\<lparr>processedBlob := None\<rparr>), False)
              | Some b \<Rightarrow>
                  (let it1 = set_status Completed (it\<lparr>processedBlob := Some b\<rparr>)
                   in if originalImg it = None then Some (set_status Error it1, False)
                      else Some (it1, True)))))"

text \<open>
  The callback of the second \<^verbatim>\<open>map\<close> (lines 319-373): the guard of line 320, the claim
  of line 322, then the \<^verbatim>\<open>try\<close> block.
\<close>

definition job :: "runtime \<Rightarrow> item \<Rightarrow> (item \<times> bool) option" where
  "job rt it =
     (if status it \<noteq> Pending then Some (it, False)
      else run_job rt (set_status Processing it))"

text \<open>The callback applied to the item at index \<open>j\<close> of the queue.\<close>

definition job_at :: "runtime \<Rightarrow> nat \<Rightarrow> sched \<Rightarrow> sched option" where
  "job_at rt j s =
     (case job rt (imageQueue s ! j) of
        None \<Rightarrow> None
      | Some (it, incremented) \<Rightarrow>
          Some \<lparr>imageQueue = (imageQueue s)[j := it],
                processedCount = (if incremented then processedCount s + 1
                                  else processedCount s)\<rparr>)"

fun jobs_at :: "runtime \<Rightarrow> nat list \<Rightarrow> sched \<Rightarrow> sched option" where
  "jobs_at rt [] s = Some s"
| "jobs_at rt (j # js) s =
     (case job_at rt j s of None \<Rightarrow> None | Some s' \<Rightarrow> jobs_at rt js s')"

text \<open>\<^verbatim>\<open>const concurrency = 3\<close> and the indices of \<^verbatim>\<open>imageQueue.slice(i, i + concurrency)\<close>.\<close>

definition concurrency :: nat where
  "concurrency = 3"

definition slice_indices :: "nat \<Rightarrow> nat \<Rightarrow> nat list" where
  "slice_indices i n = [i ..< min (i + concurrency) n]"

lemma job_at_length: "job_at rt j s = Some s' \<Longrightarrow> length (imageQueue s') = length (imageQueue s)"
  by (auto simp: job_at_def split: option.splits prod.splits)

lemma jobs_at_length: "jobs_at rt js s = Some s' \<Longrightarrow> length (imageQueue s') = length (imageQueue s)"
  by (induction js arbitrary: s) (auto split: option.splits dest: job_at_length)

text \<open>
  The loop of lines 318-374, for a run during which the queue is not replaced.  Each
  callback of a chunk changes its own item and \<^verbatim>\<open>processedCount\<close> only, so the state
  after \<^verbatim>\<open>await Promise.all\<close> is the one reached by running the callbacks of the chunk one
  after the other; \<open>None\<close> when one of them never finishes.
\<close>

function queue_loop :: "runtime \<Rightarrow> nat \<Rightarrow> sched \<Rightarrow> sched option" where
  "queue_loop rt i s =
     (if i < length (imageQueue s) then
        (case jobs_at rt (slice_indices i (length (imageQueue s))) s of
           None \<Rightarrow> None
         | Some s' \<Rightarrow> queue_loop rt (i + concurrency) s')
      else Some s)"
  by pat_completeness auto
termination
  by (relation "measure (\<lambda>(rt, i, s). length (imageQueue s) - i)")
     (auto simp: concurrency_def dest: jobs_at_length)

declare queue_loop.simps [simp del]

text \<open>
  \<^verbatim>\<open>processQueue\<close> (lines 292-379).  The first component of the result is the rejection
  of the returned promise, if any: a rejection of the first \<^verbatim>\<open>Promise.all\<close> is not caught
  and ends the function before the loop.
\<close>

definition processQueue :: "runtime \<Rightarrow> sched \<Rightarrow> (error option \<times> sched) option" where
  "processQueue rt s =
     (let (q, rejections) = preload rt (imageQueue s);
          s1 = s\<lparr>imageQueue := q\<rparr>
      in case rejections of
           e # es \<Rightarrow> Some (Some e, s1)
         | [] \<Rightarrow> (case queue_loop rt 0 s1 of None \<Rightarrow> None | Some s2 \<Rightarrow> Some (None, s2)))"

section \<open>Single files and new batches: \<^verbatim>\<open>processSingle\<close> and \<^verbatim>\<open>handleFiles\<close>\<close>

text \<open>
  \<^verbatim>\<open>processSingleImage\<close> (lines 178-222).  Every failure ends in the \<^verbatim>\<open>catch\<close> of line
  219, which only logs; the function assigns \<^verbatim>\<open>originalImg\<close> and \<^verbatim>\<open>processedBlob\<close> and
  never the status.
\<close>

definition processSingleImage :: "runtime \<Rightarrow> item \<Rightarrow> item" where
  "processSingleImage rt it =
     (case loadImage rt (ifile it) of
        Inl e \<Rightarrow> it
      | Inr img \<Rightarrow>
          (let it1 = it\<lparr>originalImg := Some img\<rparr>
           in if \<not> checkOriginal rt (ifile it) then it1
              else case engineImage rt (Some img) of
                     Inl e \<Rightarrow> it1
                   | Inr result \<Rightarrow> it1\<lparr>processedBlob := toBlob rt result\<rparr>))"

text \<open>\<^verbatim>\<open>processSingleVideo\<close> (lines 224-267); \<open>None\<close> when the pipeline never settles.\<close>

definition processSingleVideo :: "runtime \<Rightarrow> item \<Rightarrow> item option" where
  "processSingleVideo rt it =
     (case removeWatermarkFromVideo rt (ifile it) of
        None \<Rightarrow> None
      | Some (Inl e, effects) \<Rightarrow> Some it
      | Some (Inr b, effects) \<Rightarrow> Some (it\<lparr>processedBlob := Some b\<rparr>))"

text \<open>\<^verbatim>\<open>processSingle\<close> (lines 166-176).\<close>

definition processSingle :: "runtime \<Rightarrow> item \<Rightarrow> item option" where
  "processSingle rt it =
     (if isVideo it then processSingleVideo rt it else Some (processSingleImage rt it))"

text \<open>
  The classification of line 141: the type starts with \<^verbatim>\<open>video/\<close>, or the name matches
  \<^verbatim>\<open>/\.(mp4|webm|mov)$/i\<close>.  Under the flag \<^verbatim>\<open>i\<close> a letter of the pattern matches itself
  and its capital.
\<close>

definition lower :: "char \<Rightarrow> char" where
  "lower c =
     (case map_of (zip ''ABCDEFGHIJKLMNOPQRSTUVWXYZ'' ''abcdefghijklmnopqrstuvwxyz'') c of
        None \<Rightarrow> c
      | Some l \<Rightarrow> l)"

definition ends_with :: "string \<Rightarrow> string \<Rightarrow> bool" where
  "ends_with s e = (length e \<le> length s \<and> drop (length s - length e) s = e)"

definition is_video :: "srcfile \<Rightarrow> bool" where
  "is_video f =
     (take 6 (ftype f) = ''video/''
      \<or> (\<exists>e \<in> set [''.mp4'', ''.webm'', ''.mov'']. ends_with (map lower (fname f)) e))"

text \<open>
  The item that \<^verbatim>\<open>handleFiles\<close> creates for the file at position \<open>index\<close> (lines
  137-147), with \<open>now\<close> the value of \<^verbatim>\<open>Date.now()\<close>.
\<close>

definition new_item :: "nat \<Rightarrow> nat \<Rightarrow> srcfile \<Rightarrow> item" where
  "new_item now index f =
     \<lparr>ident = now + index, ifile = f, name = fname f, isVideo = is_video f,
      status = Pending, originalImg = None, processedBlob = None, history = [Pending]\<rparr>"

text \<open>
  \<^verbatim>\<open>handleFiles\<close> from line 130 on, for the files that passed the filter of lines
  120-128, together with the work it starts: \<^verbatim>\<open>processSingle\<close> for one file,
  \<^verbatim>\<open>processQueue\<close> for more.  The result is the state when that work has ended and the
  rejection of \<^verbatim>\<open>processQueue\<close>, if any.
\<close>

definition handleFiles ::
  "runtime \<Rightarrow> nat \<Rightarrow> srcfile list \<Rightarrow> sched \<Rightarrow> (error option \<times> sched) option" where
  "handleFiles rt now validFiles s =
     (if length validFiles = 0 then Some (None, s)
      else
        let s1 = \<lparr>imageQueue = map (\<lambda>(index, f). new_item now index f) (enumerate 0 validFiles),
                  processedCount = 0\<rparr>
        in if length validFiles = 1 then
             (case processSingle rt (imageQueue s1 ! 0) of
                None \<Rightarrow> None
              | Some it \<Rightarrow> Some (None, s1\<lparr>imageQueue := [it]\<rparr>))
           else processQueue rt s1)"

section \<open>The scheduler between its suspension points\<close>

text \<open>
  JavaScript runs one callback at a time, up to its next \<^verbatim>\<open>await\<close>.  One iteration of the
  loop of line 318 first runs every callback of the chunk up to its first \<^verbatim>\<open>await\<close>
  (guard and claim, lines 320-322), then suspends in \<^verbatim>\<open>await Promise.all\<close>; the
  callbacks resume one at a time, in an order that the browser decides, and run their
  remaining assignments (lines 330-372) without interruption.  A state of the run holds
  the two module variables, the loop variable \<open>i\<close>, whether the loop is suspended in
  \<^verbatim>\<open>Promise.all\<close>, and the indices of the callbacks that have claimed their item and not
  resumed yet.
\<close>

record run_state = sched +
  loop_i :: nat
  awaiting :: bool
  suspended :: "nat set"

definition claim :: "item \<Rightarrow> item" where
  "claim it = (if status it \<noteq> Pending then it else set_status Processing it)"

definition in_slice :: "nat \<Rightarrow> nat \<Rightarrow> bool" where
  "in_slice i j = (i \<le> j \<and> j < i + concurrency)"

definition dispatch :: "run_state \<Rightarrow> run_state" where
  "dispatch s =
     s\<lparr>imageQueue :=
         map (\<lambda>(j, it). if in_slice (loop_i s) j then claim it else it)
           (enumerate 0 (imageQueue s)),
       awaiting := True,
       suspended :=
         {j. j < length (imageQueue s) \<and> in_slice (loop_i s) j \<and>
             status (imageQueue s ! j) = Pending}\<rparr>"

definition resume :: "nat \<Rightarrow> item \<Rightarrow> bool \<Rightarrow> run_state \<Rightarrow> run_state" where
  "resume j it incremented s =
     s\<lparr>imageQueue := (imageQueue s)[j := it],
       processedCount := (if incremented then processedCount s + 1 else processedCount s),
       suspended := suspended s - {j}\<rparr>"

definition join :: "run_state \<Rightarrow> run_state" where
  "join s = s\<lparr>loop_i := loop_i s + concurrency, awaiting := False\<rparr>"

inductive step :: "runtime \<Rightarrow> run_state \<Rightarrow> run_state \<Rightarrow> bool" for rt :: runtime where
  step_dispatch:
    "\<not> awaiting s \<Longrightarrow> loop_i s < length (imageQueue s) \<Longrightarrow> step rt s (dispatch s)"
| step_resume:
    "j \<in> suspended s \<Longrightarrow> run_job rt (imageQueue s ! j) = Some (it, incremented) \<Longrightarrow>
     step rt s (resume j it incremented s)"
| step_join:
    "awaiting s \<Longrightarrow> suspended s = {} \<Longrightarrow> step rt s (join s)"

text \<open>The state in which the loop is entered, and the states a run passes through.\<close>

definition start :: "sched \<Rightarrow> run_state" where
  "start s = \<lparr>imageQueue = imageQueue s, processedCount = processedCount s,
              loop_i = 0, awaiting = False, suspended = {}\<rparr>"

definition reachable :: "runtime \<Rightarrow> sched \<Rightarrow> run_state \<Rightarrow> bool" where
  "reachable rt s0 s = (step rt)\<^sup>*\<^sup>* (start s0) s"

text \<open>
  A batch as \<^verbatim>\<open>handleFiles\<close> creates it (lines 137-149) and the first \<^verbatim>\<open>Promise.all\<close>
  leaves it when no image fails to load: every item is pending, nothing is counted, and
  every image item holds its loaded image.
\<close>

definition fresh :: "item \<Rightarrow> bool" where
  "fresh it = (status it = Pending \<and> history it = [Pending] \<and> processedBlob it = None)"

definition loaded :: "item \<Rightarrow> bool" where
  "loaded it = (isVideo it \<or> originalImg it \<noteq> None)"

definition new_batch :: "sched \<Rightarrow> bool" where
  "new_batch s = (list_all fresh (imageQueue s) \<and> processedCount s = 0)"

definition terminal :: "status \<Rightarrow> bool" where
  "terminal st = (st = Completed \<or> st = Error)"

definition processing_count :: "item list \<Rightarrow> nat" where
  "processing_count q = length (filter (\<lambda>it. status it = Processing) q)"

section \<open>Uploads while a run is suspended\<close>

text \<open>
  \<^verbatim>\<open>imageQueue\<close> and \<^verbatim>\<open>processedCount\<close> are module variables, and the upload area stays
  active while \<^verbatim>\<open>processQueue\<close> is suspended: \<^verbatim>\<open>handleFiles\<close> may replace the queue in
  the middle of a run.  The items are objects, and a suspended callback keeps the
  reference to its item also when the item is no longer in the queue.  This model keeps
  every item ever created in a store and addresses it by its position there; \<open>queue\<close>,
  the value of \<^verbatim>\<open>imageQueue\<close>, is a list of addresses, and \<open>counter\<close> is the value of
  \<^verbatim>\<open>processedCount\<close>.  Every call of \<^verbatim>\<open>processQueue\<close> has a record of its own: the
  addresses that its first \<^verbatim>\<open>map\<close> went through (line 293), its loop variable, where it
  is suspended, and the addresses of the callbacks of its current chunk that have claimed
  their item and not resumed yet.  Only uploads of two or more files are modelled.
\<close>

datatype phase = Preloading | InChunk | Ended

record run =
  run_items :: "nat list"
  run_i :: nat
  run_phase :: phase
  run_suspended :: "nat list"

record app =
  store :: "item list"
  queue :: "nat list"
  counter :: nat
  runs :: "run list"

text \<open>
  \<^verbatim>\<open>handleFiles\<close> for two or more valid files (lines 130-163): the new items replace the
  queue, the counter is reset, and \<^verbatim>\<open>processQueue\<close> is called, which runs up to its first
  \<^verbatim>\<open>await\<close>.
\<close>

definition app_upload :: "nat \<Rightarrow> srcfile list \<Rightarrow> app \<Rightarrow> app" where
  "app_upload now validFiles a =
     (let addresses = [length (store a) ..< length (store a) + length validFiles]
      in a\<lparr>store := store a @ map (\<lambda>(index, f). new_item now index f) (enumerate 0 validFiles),
           queue := addresses,
           counter := 0,
           runs := runs a @ [\<lparr>run_items = addresses, run_i = 0, run_phase = Preloading,
                               run_suspended = []\<rparr>]\<rparr>)"

text \<open>
  \<^verbatim>\<open>handleFiles\<close> empties the list of cards (line 158) and creates the cards of the new
  items (line 161).  \<^verbatim>\<open>document.getElementById\<close> finds an element by an id that ends in
  the \<^verbatim>\<open>id\<close> of the item, so an item has its elements exactly when an item of the
  current queue carries its \<^verbatim>\<open>id\<close>.
\<close>

definition has_card :: "app \<Rightarrow> item \<Rightarrow> bool" where
  "has_card a it = (ident it \<in> set (map (\<lambda>ad. ident (store a ! ad)) (queue a)))"

text \<open>
  The callback of the first \<^verbatim>\<open>map\<close> (lines 294-314) with or without the card of the item:
  the lookup of line 297 is guarded, the one of line 312 is not and throws after the
  image has been stored.
\<close>

definition app_preload_item :: "runtime \<Rightarrow> bool \<Rightarrow> item \<Rightarrow> item \<times> error option" where
  "app_preload_item rt present it =
     (if isVideo it then (it, None)
      else case loadImage rt (ifile it) of
             Inl e \<Rightarrow> (it, Some e)
           | Inr img \<Rightarrow> (it\<lparr>originalImg := Some img\<rparr>, if present then None else Some TypeError))"

text \<open>
  The \<^verbatim>\<open>try\<close> block and its \<^verbatim>\<open>catch\<close> (lines 325-372) for a claimed item whose card is
  gone.  For a video the lookup of line 333 is guarded and the status becomes Completed
  (line 336); then \<^verbatim>\<open>downloadBtnEl\<close> is \<^verbatim>\<open>null\<close> and line 363 throws.  For an image line
  343 or line 344 throws.  The \<^verbatim>\<open>catch\<close> sets the status to Error; line 366 is not
  reached.
\<close>

definition run_orphan :: "runtime \<Rightarrow> item \<Rightarrow> (item \<times> bool) option" where
  "run_orphan rt it =
     (if isVideo it then
        (case removeWatermarkFromVideo rt (ifile it) of
           None \<Rightarrow> None
         | Some (Inl e, effects) \<Rightarrow> Some (set_status Error it, False)
         | Some (Inr b, effects) \<Rightarrow>
             Some (set_status Error (set_status Completed (it\<lparr>processedBlob := Some b\<rparr>)),
                   False))
      else
        (case engineImage rt (originalImg it) of
           Inl e \<Rightarrow> Some (set_status Error it, False)
         | Inr result \<Rightarrow>
             Some (set_status Error (it\<lparr>processedBlob := toBlob rt result\<rparr>), False)))"

text \<open>
  The loop test of line 318 and, when it holds, the callbacks of the chunk up to their
  first \<^verbatim>\<open>await\<close> (lines 319-322).  \<^verbatim>\<open>imageQueue\<close> is read at this moment: the slice is
  taken from the queue that is current now.
\<close>

definition enter_chunk :: "nat \<Rightarrow> app \<Rightarrow> app" where
  "enter_chunk k a =
     (let r = runs a ! k
      in if run_i r < length (queue a) then
           (let slice = take concurrency (drop (run_i r) (queue a));
                claims = filter (\<lambda>ad. status (store a ! ad) = Pending) slice
            in a\<lparr>store := fold (\<lambda>ad st. st[ad := set_status Processing (st ! ad)]) claims
                              (store a),
                 runs := (runs a)[k := r\<lparr>run_phase := InChunk, run_suspended := claims\<rparr>]\<rparr>)
         else a\<lparr>runs := (runs a)[k := r\<lparr>run_phase := Ended\<rparr>]\<rparr>)"

text \<open>
  The first \<^verbatim>\<open>Promise.all\<close> of the call \<open>k\<close> is settled (the callbacks of its items are
  taken together): a rejection ends the call, otherwise the loop is entered.
\<close>

definition app_start :: "runtime \<Rightarrow> nat \<Rightarrow> app \<Rightarrow> app" where
  "app_start rt k a =
     (let r = runs a ! k;
          results = map (\<lambda>ad. app_preload_item rt (has_card a (store a ! ad)) (store a ! ad))
                      (run_items r);
          a1 = a\<lparr>store := fold (\<lambda>(ad, res) st. st[ad := fst res]) (zip (run_items r) results)
                              (store a)\<rparr>
      in if \<exists>res \<in> set results. snd res \<noteq> None
         then a1\<lparr>runs := (runs a)[k := r\<lparr>run_phase := Ended\<rparr>]\<rparr>
         else enter_chunk k a1)"

text \<open>The callback of the call \<open>k\<close> for the item at the address \<open>ad\<close> resumes and finishes.\<close>

definition app_resume :: "runtime \<Rightarrow> nat \<Rightarrow> nat \<Rightarrow> app \<Rightarrow> app option" where
  "app_resume rt k ad a =
     (let r = runs a ! k;
          it = store a ! ad
      in case (if has_card a it then run_job rt it else run_orphan rt it) of
           None \<Rightarrow> None
         | Some (it', incremented) \<Rightarrow>
             Some (a\<lparr>store := (store a)[ad := it'],
                     counter := (if incremented then counter a + 1 else counter a),
                     runs := (runs a)[k := r\<lparr>run_suspended :=
                                                removeAll ad (run_suspended r)\<rparr>]\<rparr>))"

text \<open>
  The \<^verbatim>\<open>Promise.all\<close> of the current chunk of the call \<open>k\<close> is settled: \<^verbatim>\<open>i += concurrency\<close>,
  then the loop test and the next chunk.
\<close>

definition app_continue :: "nat \<Rightarrow> app \<Rightarrow> app" where
  "app_continue k a =
     enter_chunk k
       (a\<lparr>runs := (runs a)[k := (runs a ! k)\<lparr>run_i := run_i (runs a ! k) + concurrency\<rparr>]\<rparr>)"

text \<open>
  What the browser delivers to the application: an upload of files at a time, the
  settlement of the first \<^verbatim>\<open>Promise.all\<close> of a call, the end of the awaited work of one
  callback, the settlement of the \<^verbatim>\<open>Promise.all\<close> of a chunk.  An event that cannot occur
  in a state yields \<open>None\<close>, as does a job that never settles.
\<close>

datatype event =
  Upload nat "srcfile list"
| Start nat
| Resume nat nat
| Continue nat

fun app_event :: "runtime \<Rightarrow> event \<Rightarrow> app \<Rightarrow> app option" where
  "app_event rt (Upload now validFiles) a =
     (if 2 \<le> length validFiles then Some (app_upload now validFiles a) else None)"
| "app_event rt (Start k) a =
     (if k < length (runs a) \<and> run_phase (runs a ! k) = Preloading
      then Some (app_start rt k a) else None)"
| "app_event rt (Resume k ad) a =
     (if k < length (runs a) \<and> ad \<in> set (run_suspended (runs a ! k))
      then app_resume rt k ad a else None)"
| "app_event rt (Continue k) a =
     (if k < length (runs a) \<and> run_phase (runs a ! k) = InChunk
           \<and> run_suspended (runs a ! k) = []
      then Some (app_continue k a) else None)"

fun app_run :: "runtime \<Rightarrow> event list \<Rightarrow> app \<Rightarrow> app option" where
  "app_run rt [] a = Some a"
| "app_run rt (e # es) a =
     (case app_event rt e a of None \<Rightarrow> None | Some a' \<Rightarrow> app_run rt es a')"

text \<open>The application before any upload, and the items of the current queue.\<close>

definition app0 :: app where
  "app0 = \<lparr>store = [], queue = [], counter = 0, runs = []\<rparr>"

definition queue_items :: "app \<Rightarrow> item list" where
  "queue_items a = map (\<lambda>ad. store a ! ad) (queue a)"

section \<open>Auxiliary notions for the scheduler\<close>

text \<open>
  These are not in the code.  An item is \<open>untouched\<close> when it is as the first
  \<^verbatim>\<open>Promise.all\<close> leaves a new item, \<open>claimed\<close> between the claim of line 322 and the end of
  its job, and \<open>settled\<close> after its job: Completed with an output, or failed.  An item is
  \<open>responsive\<close> when the promise of its job is settled at some time.  \<open>chunk_inv i\<close> holds
  between two chunks: the items before index \<open>i\<close> are settled, the others untouched, and
  \<^verbatim>\<open>processedCount\<close> is the number of Completed items.
\<close>

definition claimed :: "item \<Rightarrow> bool" where
  "claimed it = (status it = Processing \<and> history it = [Pending, Processing] \<and> loaded it)"

definition settled :: "item \<Rightarrow> bool" where
  "settled it =
     (status it = Completed \<and> history it = [Pending, Processing, Completed]
        \<and> processedBlob it \<noteq> None
      \<or> status it = Error \<and> history it = [Pending, Processing, Error])"

definition untouched :: "item \<Rightarrow> bool" where
  "untouched it = (fresh it \<and> loaded it)"

definition responsive :: "runtime \<Rightarrow> item \<Rightarrow> bool" where
  "responsive rt it = (isVideo it \<longrightarrow> removeWatermarkFromVideo rt (ifile it) \<noteq> None)"

definition chunk_inv :: "nat \<Rightarrow> sched \<Rightarrow> bool" where
  "chunk_inv i s =
     ((\<forall>j < length (imageQueue s).
         if j < i then settled (imageQueue s ! j) else untouched (imageQueue s ! j))
      \<and> processedCount s = length (completed_items (imageQueue s)))"

definition completed_count :: "item list \<Rightarrow> nat" where
  "completed_count q = length (completed_items q)"

text \<open>
  \<open>run_inv n\<close> holds in every state that a run of the loop over \<open>n\<close> untouched items
  passes through: the loop variable is a multiple of the chunk size; the suspended
  callbacks belong to the current chunk; their items are claimed; the items before the
  current chunk, and those of the current chunk whose callback has finished, are settled;
  all later items are untouched; \<^verbatim>\<open>processedCount\<close> is the number of Completed items.
  \<open>entered rt s0\<close> is the state in which \<^verbatim>\<open>processQueue\<close> enters its loop.
\<close>

definition run_inv :: "nat \<Rightarrow> run_state \<Rightarrow> bool" where
  "run_inv n s =
     (length (imageQueue s) = n
      \<and> concurrency dvd loop_i s
      \<and> (\<not> awaiting s \<longrightarrow> suspended s = {})
      \<and> suspended s \<subseteq> {j. j < n \<and> in_slice (loop_i s) j}
      \<and> (\<forall>j < n.
            if j \<in> suspended s then claimed (imageQueue s ! j)
            else if j < loop_i s \<or> awaiting s \<and> in_slice (loop_i s) j
              then settled (imageQueue s ! j)
              else untouched (imageQueue s ! j))
      \<and> processedCount s = length (completed_items (imageQueue s)))"

definition entered :: "runtime \<Rightarrow> sched \<Rightarrow> sched" where
  "entered rt s0 = s0\<lparr>imageQueue := fst (preload rt (imageQueue s0))\<rparr>"

text \<open>
  \<open>rel_inv rt q0\<close> relates every state of a run to the queue \<open>q0\<close> in which the loop was
  entered: an item is the claimed item of \<open>q0\<close> while its callback is suspended, the
  result of its job once its chunk has been reached, and the item of \<open>q0\<close> before.
\<close>

definition rel_inv :: "runtime \<Rightarrow> item list \<Rightarrow> run_state \<Rightarrow> bool" where
  "rel_inv rt q0 s =
     (\<forall>j < length q0.
        if j \<in> suspended s then imageQueue s ! j = claim (q0 ! j)
        else if j < loop_i s \<or> awaiting s \<and> in_slice (loop_i s) j
          then \<exists>incremented. job rt (q0 ! j) = Some (imageQueue s ! j, incremented)
          else imageQueue s ! j = q0 ! j)"

section \<open>Properties of packaging\<close>

lemma zip_file_keys:
  "map fst (zip_file n d z) = (if n \<in> set (map fst z) then map fst z else map fst z @ [n])"
proof (induction z)
  case Nil
  show ?case by simp
next
  case (Cons p z)
  obtain k v where p: "p = (k, v)" by (cases p)
  show ?case using Cons.IH by (simp add: p)
qed

lemma zip_file_key_set: "fst ` set (zip_file n d z) = insert n (fst ` set z)"
proof -
  have "set (map fst (zip_file n d z)) = insert n (set (map fst z))"
    unfolding zip_file_keys by auto
  then show ?thesis by simp
qed

lemma zip_file_distinct: "distinct (map fst z) \<Longrightarrow> distinct (map fst (zip_file n d z))"
  by (simp add: zip_file_keys)

lemma zip_file_map_of: "map_of (zip_file n d z) = (map_of z)(n \<mapsto> d)"
  by (induction z) auto

lemma foldl_add_entry_distinct:
  "distinct (map fst z) \<Longrightarrow> distinct (map fst (foldl add_entry z xs))"
  by (induction xs arbitrary: z) (simp_all add: add_entry_def zip_file_distinct)

lemma foldl_add_entry_keys:
  "fst ` set (foldl add_entry z xs) = fst ` set z \<union> filename ` set xs"
  by (induction xs arbitrary: z) (simp_all add: add_entry_def zip_file_key_set)

lemma foldl_add_entry_fresh:
  "distinct (map filename xs) \<Longrightarrow> filename ` set xs \<inter> fst ` set z = {} \<Longrightarrow>
   foldl add_entry z xs = z @ map (\<lambda>it. (filename it, processedBlob it)) xs"
proof (induction xs arbitrary: z)
  case Nil
  then show ?case by simp
next
  case (Cons x xs)
  have fresh: "filename x \<notin> fst ` set z"
    using Cons.prems(2) by auto
  have step: "add_entry z x = z @ [(filename x, processedBlob x)]"
    using fresh by (induction z) (auto simp: add_entry_def)
  have "filename ` set xs \<inter> fst ` set (add_entry z x) = {}"
    using Cons.prems by (auto simp: step)
  with Cons.IH [of "add_entry z x"] Cons.prems(1) show ?case
    by (simp add: step)
qed

lemma zip_file_subset: "set (zip_file n d z) \<subseteq> insert (n, d) (set z)"
  by (induction z) (auto split: if_splits)

lemma foldl_add_entry_subset:
  "set (foldl add_entry z xs) \<subseteq> set z \<union> (\<lambda>it. (filename it, processedBlob it)) ` set xs"
proof (induction xs arbitrary: z)
  case Nil
  show ?case by simp
next
  case (Cons x xs)
  have "set (foldl add_entry (add_entry z x) xs)
          \<subseteq> set (add_entry z x) \<union> (\<lambda>it. (filename it, processedBlob it)) ` set xs"
    by (rule Cons.IH)
  moreover have "set (add_entry z x) \<subseteq> insert (filename x, processedBlob x) (set z)"
    unfolding add_entry_def by (rule zip_file_subset)
  ultimately show ?case by auto
qed

text \<open>The two cases of the pattern \<^verbatim>\<open>/\.[^.]+$/\<close>.\<close>

lemma strip_ext_match:
  assumes "e \<noteq> []" and "CHR ''.'' \<notin> set e"
  shows "strip_ext (b @ ''.'' @ e) = b"
proof -
  have nodot: "\<forall>c \<in> set (rev e). c \<noteq> CHR ''.''"
    using assms(2) by auto
  have tw: "takeWhile (\<lambda>c. c \<noteq> CHR ''.'') (rev e @ CHR ''.'' # rev b) = rev e"
    using nodot by (simp add: takeWhile_tail)
  have dw: "dropWhile (\<lambda>c. c \<noteq> CHR ''.'') (rev e @ CHR ''.'' # rev b) = CHR ''.'' # rev b"
    using nodot by (simp add: dropWhile_append3)
  show ?thesis
    using assms(1) by (simp add: strip_ext_def Let_def tw dw)
qed

lemma strip_ext_no_match:
  assumes "CHR ''.'' \<notin> set s \<or> (\<exists>b. s = b @ ''.'')"
  shows "strip_ext s = s"
  using assms
proof
  assume "CHR ''.'' \<notin> set s"
  then have "\<forall>c \<in> set (rev s). c \<noteq> CHR ''.''"
    by auto
  then have "dropWhile (\<lambda>c. c \<noteq> CHR ''.'') (rev s) = []"
    by simp
  then show ?thesis
    by (simp add: strip_ext_def Let_def)
next
  assume "\<exists>b. s = b @ ''.''"
  then obtain b where "s = b @ ''.''" ..
  then show ?thesis
    by (simp add: strip_ext_def Let_def)
qed

section \<open>Properties of the numbers\<close>

lemma bits_bounds: "0 < n \<Longrightarrow> 2 ^ (bits n - 1) \<le> n \<and> n < 2 ^ bits n"
proof (induction n rule: bits.induct)
  case (1 n)
  show ?case
  proof (cases "n div 2 = 0")
    case True
    with 1(2) have "n = 1" by (auto simp: div_eq_0_iff)
    then show ?thesis by (subst bits.simps, subst bits.simps, simp)+
  next
    case False
    with 1 have IH: "2 ^ (bits (n div 2) - 1) \<le> n div 2 \<and> n div 2 < 2 ^ bits (n div 2)"
      by simp
    have b: "bits n = Suc (bits (n div 2))"
      using 1(2) by (subst bits.simps) simp
    have pos: "0 < bits (n div 2)"
      using False by (subst bits.simps) simp
    then obtain k where k: "bits (n div 2) = Suc k"
      by (cases "bits (n div 2)") auto
    from IH have "2 * 2 ^ k \<le> n" "n < 2 * 2 ^ Suc k"
      unfolding k by auto
    then show ?thesis
      unfolding b k by simp
  qed
qed

text \<open>\<open>expo\<close> is the binary exponent.\<close>

lemma expo_bounds:
  assumes "0 < x"
  shows "2 powi (expo x) \<le> x \<and> x < 2 powi (expo x + 1)"
proof (cases "1 \<le> x")
  case True
  define n where "n = nat \<lfloor>x\<rfloor>"
  have n: "0 < n" "of_nat n \<le> x" "x < of_nat n + 1"
    using True unfolding n_def by (auto simp: floor_less_iff) linarith+
  from bits_bounds [OF n(1)] have b: "2 ^ (bits n - 1) \<le> n" "n < 2 ^ bits n"
    by auto
  have pos: "0 < bits n" using n(1) by (subst bits.simps) simp
  have e: "expo x = int (bits n) - 1"
    using True by (simp add: expo_def n_def)
  have "(2::rat) ^ (bits n - 1) \<le> of_nat n"
    using b(1) by (metis of_nat_le_iff of_nat_numeral of_nat_power)
  from this n(2) have "(2::rat) ^ (bits n - 1) \<le> x"
    by (rule order_trans)
  moreover have "nat (int (bits n) - 1) = bits n - 1" "0 \<le> int (bits n) - 1"
    using pos by auto
  ultimately have lo: "2 powi (expo x) \<le> x"
    unfolding e by (simp add: power_int_def)
  have "n + 1 \<le> 2 ^ bits n" using b(2) by simp
  then have "(of_nat (n + 1) :: rat) \<le> of_nat (2 ^ bits n)"
    by (rule of_nat_mono)
  with n(3) have "x < of_nat (2 ^ bits n)"
    by simp
  then have "x < 2 ^ bits n"
    by simp
  then have hi: "x < 2 powi (expo x + 1)"
    unfolding e by (simp add: power_int_def)
  from lo hi show ?thesis ..
next
  case False
  define y where "y = 1 / x"
  define m where "m = \<lceil>y\<rceil>"
  have y: "1 < y" using False assms by (simp add: y_def)
  have m: "2 \<le> m" "of_int m - 1 < y" "y \<le> of_int m"
    using y unfolding m_def by (auto simp: le_ceiling_iff) linarith+
  define n where "n = nat (m - 1)"
  have n: "0 < n" "int n = m - 1" using m(1) by (auto simp: n_def)
  from bits_bounds [OF n(1)] have b: "2 ^ (bits n - 1) \<le> n" "n < 2 ^ bits n"
    by auto
  have pos: "0 < bits n" using n(1) by (subst bits.simps) simp
  have e: "expo x = - int (bits n)"
    using False by (simp add: expo_def n_def m_def y_def)
  have "(of_nat n :: rat) = of_int m - 1"
    using n(2) by (metis of_int_1 of_int_diff of_int_of_nat_eq)
  then have ny: "of_nat n < y" "y \<le> of_nat n + 1"
    using m by auto
  have "(2::rat) ^ (bits n - 1) \<le> of_nat n"
    using b(1) by (metis of_nat_le_iff of_nat_numeral of_nat_power)
  from this ny(1) have 1: "2 ^ (bits n - 1) < y" by (rule le_less_trans)
  have "n + 1 \<le> 2 ^ bits n" using b(2) by simp
  then have "(of_nat (n + 1) :: rat) \<le> of_nat (2 ^ bits n)"
    by (rule of_nat_mono)
  with ny(2) have "y \<le> of_nat (2 ^ bits n)" by simp
  then have 2: "y \<le> 2 ^ bits n" by simp
  have x: "x = 1 / y" using assms by (simp add: y_def)
  have p1: "2 powi (expo x) = 1 / (2::rat) ^ bits n"
    unfolding e by (simp add: power_int_minus field_simps)
  have "expo x + 1 = - int (bits n - 1)"
    using pos e by simp
  then have p2: "2 powi (expo x + 1) = 1 / (2::rat) ^ (bits n - 1)"
    by (simp only: power_int_minus power_int_of_nat) (simp add: field_simps)
  have "1 / (2::rat) ^ bits n \<le> 1 / y"
    using 2 y by (intro divide_left_mono) auto
  then have lo: "2 powi (expo x) \<le> x"
    unfolding p1 by (simp only: x)
  have "1 / y < 1 / (2::rat) ^ (bits n - 1)"
    using 1 y by (intro divide_strict_left_mono) (auto intro: mult_pos_pos)
  then have hi: "x < 2 powi (expo x + 1)"
    unfolding p2 by (simp only: x)
  from lo hi show ?thesis ..
qed

lemma rne_of_int [simp]: "rne (of_int m) = m"
  by (simp add: rne_def)

lemma rne_0 [simp]: "rne 0 = 0"
  using rne_of_int [of 0] by simp

lemma rne_cases: "rne x = \<lfloor>x\<rfloor> \<or> rne x = \<lfloor>x\<rfloor> + 1"
  by (simp add: rne_def Let_def)

lemma rne_floor_le: "\<lfloor>x\<rfloor> \<le> rne x"
  using rne_cases [of x] by auto

lemma rne_mono: assumes "x \<le> y" shows "rne x \<le> rne y"
proof (cases "\<lfloor>x\<rfloor> = \<lfloor>y\<rfloor>")
  case True
  define f where "f = \<lfloor>x\<rfloor>"
  have "x - of_int f \<le> y - of_int f" using assms by simp
  then show ?thesis
    unfolding rne_def Let_def True [symmetric] f_def [symmetric]
    by auto
next
  case False
  with assms have "\<lfloor>x\<rfloor> < \<lfloor>y\<rfloor>"
    by (simp add: floor_mono order.strict_iff_order)
  then have "\<lfloor>x\<rfloor> + 1 \<le> \<lfloor>y\<rfloor>" by simp
  with rne_cases [of x] rne_floor_le [of y] show ?thesis by auto
qed

lemma rne_nonneg: "0 \<le> x \<Longrightarrow> 0 \<le> rne x"
  using rne_mono [of 0 x] by simp

lemma rne_nonpos: "x \<le> 0 \<Longrightarrow> rne x \<le> 0"
  using rne_mono [of x 0] by simp

lemma grid_ulp: "x \<noteq> 0 \<Longrightarrow> grid x = of_int (rne (x / 2 powi ulp_exp x)) * 2 powi ulp_exp x"
  by (simp add: grid_def)

lemma grid_0 [simp]: "grid 0 = 0"
  by (simp add: grid_def)

lemma two_powi_pos [simp]: "0 < (2::rat) powi k"
  by (simp add: power_int_def)

lemma two_powi_int: "0 \<le> k \<Longrightarrow> (2::rat) powi k = of_int (2 ^ nat k)"
  by (simp add: power_int_def)

lemma two_powi_mono: "j \<le> k \<Longrightarrow> (2::rat) powi j \<le> 2 powi k"
  by (rule power_int_increasing) simp_all

lemma expo_mono:
  assumes "0 < x" and "x \<le> y"
  shows "expo x \<le> expo y"
proof (rule ccontr)
  assume "\<not> expo x \<le> expo y"
  then have "expo y + 1 \<le> expo x" by simp
  then have "(2::rat) powi (expo y + 1) \<le> 2 powi (expo x)"
    by (rule two_powi_mono)
  moreover have "0 < y" using assms by simp
  ultimately show False
    using expo_bounds [OF assms(1)] expo_bounds [OF \<open>0 < y\<close>] assms(2) by linarith
qed

lemma ratio_int:
  assumes "j \<le> k"
  shows "(2::rat) powi k / 2 powi j = of_int (2 ^ nat (k - j))"
proof -
  have "(2::rat) powi k / 2 powi j = 2 powi (k - j)"
    by (simp add: power_int_diff)
  also have "\<dots> = of_int (2 ^ nat (k - j))"
    using assms by (simp add: two_powi_int)
  finally show ?thesis .
qed

lemma grid_nonneg: "0 \<le> x \<Longrightarrow> 0 \<le> grid x"
proof (cases "x = 0")
  case False
  assume "0 \<le> x"
  then have "0 \<le> x / 2 powi ulp_exp x" by simp
  then have "0 \<le> rne (x / 2 powi ulp_exp x)" by (rule rne_nonneg)
  then show ?thesis
    unfolding grid_ulp [OF False] by simp
qed simp

lemma grid_nonpos: "x \<le> 0 \<Longrightarrow> grid x \<le> 0"
proof (cases "x = 0")
  case False
  assume "x \<le> 0"
  then have "x / 2 powi ulp_exp x \<le> 0" by (simp add: divide_nonpos_pos)
  then have "rne (x / 2 powi ulp_exp x) \<le> 0" by (rule rne_nonpos)
  then show ?thesis
    unfolding grid_ulp [OF False] by (simp add: mult_le_0_iff)
qed simp

text \<open>Rounding is monotone.\<close>

lemma grid_mono_pos:
  assumes "0 < x" and "x \<le> y"
  shows "grid x \<le> grid y"
proof -
  have y: "0 < y" using assms by simp
  have nz: "x \<noteq> 0" "y \<noteq> 0" using assms by auto
  have ax: "\<bar>x\<bar> = x" "\<bar>y\<bar> = y" using assms by auto
  let ?kx = "ulp_exp x" and ?ky = "ulp_exp y"
  have k: "?kx \<le> ?ky"
    using expo_mono [OF assms] by (simp add: ulp_exp_def ax)
  show ?thesis
  proof (cases "?kx = ?ky")
    case True
    have "x / 2 powi ?kx \<le> y / 2 powi ?kx"
      using assms(2) by (simp add: divide_right_mono)
    then have "rne (x / 2 powi ?kx) \<le> rne (y / 2 powi ?kx)"
      by (rule rne_mono)
    then show ?thesis
      unfolding grid_ulp [OF nz(1)] grid_ulp [OF nz(2)] True [symmetric]
      by (simp add: mult_right_mono)
  next
    case False
    with k have lt: "?kx < ?ky" by simp
    then have ky: "?ky = expo y - 52"
      by (auto simp: ulp_exp_def ax max_def split: if_splits)
    have "expo x - 52 \<le> ?kx"
      by (simp add: ulp_exp_def ax)
    with lt ky have ex: "expo x + 1 \<le> expo y" by simp
    define B :: rat where "B = 2 powi (expo y)"
    have xB: "x \<le> B"
      using expo_bounds [OF assms(1)] two_powi_mono [OF ex] unfolding B_def by linarith
    have By: "B \<le> y"
      using expo_bounds [OF y] unfolding B_def by simp
    have "?kx \<le> expo y" using lt ky by simp
    from ratio_int [OF this] have Bx: "B / 2 powi ?kx = of_int (2 ^ nat (expo y - ?kx))"
      unfolding B_def .
    have "?ky \<le> expo y" using ky by simp
    from ratio_int [OF this] have Bk: "B / 2 powi ?ky = of_int (2 ^ nat (expo y - ?ky))"
      unfolding B_def .
    have "rne (x / 2 powi ?kx) \<le> rne (B / 2 powi ?kx)"
      using xB by (intro rne_mono divide_right_mono) simp_all
    then have "of_int (rne (x / 2 powi ?kx)) \<le> B / 2 powi ?kx"
      unfolding Bx rne_of_int by simp
    then have 1: "grid x \<le> B"
      unfolding grid_ulp [OF nz(1)] by (simp add: pos_le_divide_eq)
    have "rne (B / 2 powi ?ky) \<le> rne (y / 2 powi ?ky)"
      using By by (intro rne_mono divide_right_mono) simp_all
    then have "B / 2 powi ?ky \<le> of_int (rne (y / 2 powi ?ky))"
      unfolding Bk rne_of_int by simp
    then have 2: "B \<le> grid y"
      unfolding grid_ulp [OF nz(2)] by (simp add: pos_divide_le_eq)
    from 1 2 show ?thesis by simp
  qed
qed

lemma grid_mono:
  assumes "0 \<le> x" and "x \<le> y"
  shows "grid x \<le> grid y"
proof (cases "x = 0")
  case True
  with assms grid_nonneg [of y] show ?thesis by simp
next
  case False
  with assms have "0 < x" by simp
  then show ?thesis using assms(2) by (rule grid_mono_pos)
qed

text \<open>
  A number with a significand of at most 53 bits and an exponent in range is a binary64
  number: rounding leaves it as it is.
\<close>

lemma grid_repr:
  assumes m: "0 < m" "m \<le> 2 ^ 53" and k: "- 1074 \<le> k"
  shows "grid (of_int m * 2 powi k) = of_int m * 2 powi k"
proof -
  define y :: rat where "y = of_int m * 2 powi k"
  have y: "0 < y" using m(1) by (simp add: y_def)
  then have nz: "y \<noteq> 0" and ay: "\<bar>y\<bar> = y" by auto
  define k' where "k' = ulp_exp y"
  have "\<exists>j. y / 2 powi k' = of_int j"
  proof (cases "k' \<le> k")
    case True
    have "y / 2 powi k' = of_int m * (2 powi k / 2 powi k')"
      by (simp add: y_def)
    also have "\<dots> = of_int (m * 2 ^ nat (k - k'))"
      unfolding ratio_int [OF True] by simp
    finally show ?thesis ..
  next
    case False
    then have lt: "k < k'" by simp
    with k have k': "k' = expo y - 52"
      by (auto simp: k'_def ulp_exp_def ay max_def split: if_splits)
    have "(2::rat) powi (expo y) \<le> y"
      using expo_bounds [OF y] by simp
    also have "y = of_int m * 2 powi k"
      by (simp only: y_def)
    finally have "(2::rat) powi (expo y) \<le> of_int m * 2 powi k" .
    then have "(2::rat) powi (expo y) / 2 powi k \<le> of_int m"
      by (simp add: pos_divide_le_eq)
    moreover have ke: "k \<le> expo y" using lt k' by simp
    ultimately have "(of_int (2 ^ nat (expo y - k)) :: rat) \<le> of_int m"
      unfolding ratio_int [OF ke] by simp
    then have low: "(2::int) ^ nat (expo y - k) \<le> m"
      by (simp only: of_int_le_iff)
    have one: "(1::int) < 2" by simp
    from power_le_imp_le_exp [OF one order_trans [OF low m(2)]]
    have "nat (expo y - k) \<le> 53" .
    with lt k' have e: "expo y - k = 53" by simp
    from low m(2) have m53: "m = 2 ^ 53"
      unfolding e by simp
    from e k' have kk: "k = k' - 1" by simp
    have "y / 2 powi k' = of_int m * (2 powi (k' - 1) / 2 powi k')"
      by (simp add: y_def kk)
    also have "2 powi (k' - 1) / (2::rat) powi k' = 1 / 2"
      by (simp add: power_int_diff)
    finally have "y / 2 powi k' = of_int (2 ^ 52)"
      unfolding m53 by simp
    then show ?thesis ..
  qed
  then obtain j where j: "y / 2 powi k' = of_int j" ..
  have "grid y = of_int (rne (y / 2 powi k')) * 2 powi k'"
    unfolding k'_def by (rule grid_ulp [OF nz])
  also have "\<dots> = y / 2 powi k' * 2 powi k'"
    unfolding j by simp
  also have "\<dots> = y" by simp
  finally show ?thesis unfolding y_def .
qed

lemma grid_grid:
  assumes "0 \<le> x"
  shows "grid (grid x) = grid x"
proof (cases "x = 0")
  case False
  with assms have x: "0 < x" and ax: "\<bar>x\<bar> = x" by auto
  let ?k = "ulp_exp x"
  define m where "m = rne (x / 2 powi ?k)"
  have g: "grid x = of_int m * 2 powi ?k"
    unfolding m_def by (rule grid_ulp [OF False])
  have k: "- 1074 \<le> ?k" "expo x - 52 \<le> ?k"
    by (simp_all add: ulp_exp_def ax)
  have "x / 2 powi ?k \<le> 2 powi (expo x + 1) / 2 powi ?k"
    using expo_bounds [OF x] by (simp add: divide_right_mono)
  also have "\<dots> = 2 powi (expo x + 1 - ?k)"
    by (simp add: power_int_diff)
  also have "\<dots> \<le> 2 powi 53"
    using k(2) by (intro two_powi_mono) simp
  also have "\<dots> = of_int (2 ^ 53)"
    by (simp add: two_powi_int)
  finally have "rne (x / 2 powi ?k) \<le> rne (of_int (2 ^ 53))"
    by (rule rne_mono)
  then have m53: "m \<le> 2 ^ 53"
    unfolding m_def rne_of_int .
  have m0: "0 \<le> m"
    unfolding m_def using x by (intro rne_nonneg) simp
  show ?thesis
  proof (cases "m = 0")
    case True
    then show ?thesis by (simp add: g)
  next
    case False
    with m0 have "0 < m" by simp
    from grid_repr [OF this m53 k(1)] show ?thesis
      unfolding g .
  qed
qed simp

lemma grid_one [simp]: "grid 1 = 1"
  using grid_repr [of "2 ^ 52" "- 52"] by (simp add: power_int_minus)

lemma grid_hundred [simp]: "grid 100 = 100"
  using grid_repr [of "100 * 2 ^ 46" "- 46"] by (simp add: power_int_minus)

text \<open>Evaluation of the rounding on numerals.\<close>

lemma floor_rat_numeral_divide:
  "\<lfloor>(numeral a :: rat) / numeral b\<rfloor> = numeral a div numeral b"
  using floor_divide_of_int_eq [of "numeral a" "numeral b", where ?'a = rat] by simp

lemma floor_rat_one_divide: "\<lfloor>(1 :: rat) / numeral b\<rfloor> = 1 div numeral b"
  using floor_divide_of_int_eq [of 1 "numeral b", where ?'a = rat] by simp

lemma ceiling_rat_numeral_divide:
  "\<lceil>(numeral a :: rat) / numeral b\<rceil> = - ((- numeral a) div numeral b)"
  using ceiling_divide_eq_div [of "numeral a" "numeral b", where ?'a = rat] by simp

lemma bits_numeral:
  "bits (numeral k) = Suc (bits (numeral k div 2))" "bits 0 = 0" "bits 1 = 1" "bits (Suc 0) = 1"
  by (subst bits.simps, simp)+

lemmas number_eval = expo_def rne_def grid_def ulp_exp_def fl_def max_double_def Let_def
  floor_rat_numeral_divide floor_rat_one_divide ceiling_rat_numeral_divide bits_numeral

section \<open>Properties of the frame loop\<close>

lemma sample_0 [simp]: "sample t fi 0 = t"
  by (simp add: sample_def)

lemma sample_Suc: "sample t fi (Suc i) = sample (fadd t fi) fi i"
  by (induction i) (simp_all add: sample_def)

lemma sample_next: "sample t fi (Suc i) = fadd (sample t fi i) fi"
  by (simp add: sample_def)

text \<open>The loop is its first pass, followed by the loop at the next time.\<close>

lemma body_iteration:
  "(if nle t D then
      (case nmin t D of
         Fin seekTime \<Rightarrow>
           (let s1 = s\<lparr>seeks := seeks s @ [seekTime]\<rparr>
            in if errorAt recorder seekTime
               then Some (Rejected RecorderError,
                          s1\<lparr>urlRevoked := True, recorderState := Inactive\<rparr>)
               else case onSeek (mediaOf rt f) seekTime of
                      SeekNoEvent \<Rightarrow> None
                    | SeekVideoError \<Rightarrow>
                        Some (Rejected FailedToLoadVideo, s1\<lparr>urlRevoked := True\<rparr>)
                    | Seeked \<Rightarrow>
                        (case engineFrame rt f seekTime of
                           Inl e \<Rightarrow> Some (Thrown e, s1)
                         | Inr processedCanvas \<Rightarrow>
                             loop rt f recorder D fi (fadd t fi)
                               (s1\<lparr>drawn := drawn s1 @ [processedCanvas],
                                   emitted := emitted s1 @ [progress_of t D]\<rparr>)))
       | PosInf \<Rightarrow> Some (Thrown TypeError, s)
       | NegInf \<Rightarrow> Some (Thrown TypeError, s)
       | NaN \<Rightarrow> Some (Thrown TypeError, s))
    else Some (Done, s))
   = (case iteration rt f recorder D t s of
        Inl r \<Rightarrow> r
      | Inr s' \<Rightarrow> loop rt f recorder D fi (fadd t fi) s')"
  by (simp add: iteration_def Let_def split: number.splits seek_event.splits sum.splits)

lemma frame_loop_iteration:
  "frame_loop rt f recorder D fi t s =
     (case iteration rt f recorder D t s of
        Inl r \<Rightarrow> r
      | Inr s' \<Rightarrow> frame_loop rt f recorder D fi (fadd t fi) s')"
  by (subst frame_loop.simps) (rule body_iteration)

lemma nmin_within: "nle (Fin x) D \<Longrightarrow> nmin (Fin x) D = Fin x"
  by (cases D) simp_all

lemma iteration_continues:
  assumes "continues rt f recorder D t"
  shows "iteration rt f recorder D t s =
     Inr (s\<lparr>seeks := seeks s @ [fin t],
            drawn := drawn s @ [projr (engineFrame rt f (fin t))],
            emitted := emitted s @ [progress_of t D]\<rparr>)"
proof -
  from assms obtain x where t: "t = Fin x" and le: "nle (Fin x) D"
    and e: "\<not> errorAt recorder x" and sk: "onSeek (mediaOf rt f) x = Seeked"
    and fr: "\<not> isl (engineFrame rt f x)"
    by (auto simp: continues_def split: number.splits)
  from fr obtain c where c: "engineFrame rt f x = Inr c"
    by (cases "engineFrame rt f x") auto
  show ?thesis
    by (simp add: iteration_def t le nmin_within [OF le] e sk c Let_def)
qed

lemma iteration_stops:
  assumes "\<not> continues rt f recorder D t"
  shows "\<exists>r. iteration rt f recorder D t s = Inl r"
proof (cases "nle t D")
  case False
  then show ?thesis by (simp add: iteration_def)
next
  case le: True
  show ?thesis
  proof (cases t)
    case (Fin x)
    with le have m: "nmin t D = Fin x" by (simp add: nmin_within)
    from assms Fin le have "errorAt recorder x \<or> onSeek (mediaOf rt f) x \<noteq> Seeked
        \<or> isl (engineFrame rt f x)"
      by (auto simp: continues_def)
    then show ?thesis
      using le m by (auto simp: iteration_def Let_def split: seek_event.splits sum.splits)
  next
    case PosInf
    with le have "nmin t D = PosInf" by (cases D) simp_all
    with le show ?thesis by (simp add: iteration_def)
  next
    case NegInf
    with le have "nmin t D = NegInf" by (cases D) simp_all
    with le show ?thesis by (simp add: iteration_def)
  next
    case NaN
    with le show ?thesis by simp
  qed
qed

lemma iteration_Inr:
  "iteration rt f recorder D t s = Inr s' \<Longrightarrow> continues rt f recorder D t"
  using iteration_stops [of rt f recorder D t s] by auto

lemma iteration_Done:
  "iteration rt f recorder D t s = Inl (Some (Done, s')) \<longleftrightarrow> \<not> nle t D \<and> s' = s"
  by (auto simp: iteration_def Let_def
      split: number.splits seek_event.splits sum.splits if_splits)

lemma good_prefix_0 [simp]: "good_prefix rt f recorder D fi t 0"
  by (simp add: good_prefix_def)

lemma good_prefix_Suc:
  "good_prefix rt f recorder D fi t (Suc n) \<longleftrightarrow>
     continues rt f recorder D t \<and> good_prefix rt f recorder D fi (fadd t fi) n"
  unfolding good_prefix_def sample_Suc [symmetric]
  by (auto simp: less_Suc_eq_0_disj)

lemma advance_0 [simp]: "advance rt f D fi t 0 s = s"
  by (simp add: advance_def)

lemma advance_Suc:
  "advance rt f D fi t (Suc n) s =
     advance rt f D fi (fadd t fi) n
       (s\<lparr>seeks := seeks s @ [fin t],
          drawn := drawn s @ [projr (engineFrame rt f (fin t))],
          emitted := emitted s @ [progress_of t D]\<rparr>)"
  unfolding advance_def
  by (simp add: map_upt_Suc sample_Suc del: upt_Suc)

text \<open>
  A loop that is left has made some number of full passes and is left in the next one;
  and a loop that makes \<open>n\<close> full passes ends as the next pass does, also when that pass
  waits for ever.
\<close>

lemma frame_loop_result:
  assumes "frame_loop rt f recorder D fi t s = Some r"
  shows "\<exists>n. good_prefix rt f recorder D fi t n
           \<and> iteration rt f recorder D (sample t fi n) (advance rt f D fi t n s) = Inl (Some r)"
proof (rule frame_loop.raw_induct
    [where P = "\<lambda>rt f recorder D fi t s r. \<exists>n. good_prefix rt f recorder D fi t n
           \<and> iteration rt f recorder D (sample t fi n) (advance rt f D fi t n s) = Inl (Some r)",
     OF _ assms])
  fix loop rt f recorder D fi t s r
  assume IH: "\<And>rt f recorder D fi t s r. loop rt f recorder D fi t s = Some r
               \<Longrightarrow> \<exists>n. good_prefix rt f recorder D fi t n
           \<and> iteration rt f recorder D (sample t fi n) (advance rt f D fi t n s) = Inl (Some r)"
    and body: "(if nle t D then
        (case nmin t D of
           Fin seekTime \<Rightarrow>
             (let s1 = s\<lparr>seeks := seeks s @ [seekTime]\<rparr>
              in if errorAt recorder seekTime
                 then Some (Rejected RecorderError,
                            s1\<lparr>urlRevoked := True, recorderState := Inactive\<rparr>)
                 else case onSeek (mediaOf rt f) seekTime of
                        Seeked \<Rightarrow>
                          (case engineFrame rt f seekTime of
                             Inl e \<Rightarrow> Some (Thrown e, s1)
                           | Inr processedCanvas \<Rightarrow>
                               loop rt f recorder D fi (fadd t fi)
                                 (s1\<lparr>drawn := drawn s1 @ [processedCanvas],
                                     emitted := emitted s1 @ [progress_of t D]\<rparr>))
                      | SeekVideoError \<Rightarrow>
                          Some (Rejected FailedToLoadVideo, s1\<lparr>urlRevoked := True\<rparr>)
                      | SeekNoEvent \<Rightarrow> None)
         | PosInf \<Rightarrow> Some (Thrown TypeError, s)
         | NegInf \<Rightarrow> Some (Thrown TypeError, s)
         | NaN \<Rightarrow> Some (Thrown TypeError, s))
      else Some (Done, s)) = Some r"
  from body have step: "(case iteration rt f recorder D t s of
        Inl r' \<Rightarrow> r'
      | Inr s' \<Rightarrow> loop rt f recorder D fi (fadd t fi) s') = Some r"
    unfolding body_iteration .
  show "\<exists>n. good_prefix rt f recorder D fi t n
           \<and> iteration rt f recorder D (sample t fi n) (advance rt f D fi t n s) = Inl (Some r)"
  proof (cases "iteration rt f recorder D t s")
    case (Inl r')
    with step have "iteration rt f recorder D t s = Inl (Some r)" by simp
    then have "good_prefix rt f recorder D fi t 0
        \<and> iteration rt f recorder D (sample t fi 0) (advance rt f D fi t 0 s) = Inl (Some r)"
      by simp
    then show ?thesis ..
  next
    case (Inr s')
    then have c: "continues rt f recorder D t" by (rule iteration_Inr)
    from Inr iteration_continues [OF c, of s]
    have s': "s' = s\<lparr>seeks := seeks s @ [fin t],
            drawn := drawn s @ [projr (engineFrame rt f (fin t))],
            emitted := emitted s @ [progress_of t D]\<rparr>"
      by simp
    from step Inr have "loop rt f recorder D fi (fadd t fi) s' = Some r" by simp
    from IH [OF this] obtain n where
      "good_prefix rt f recorder D fi (fadd t fi) n"
      "iteration rt f recorder D (sample (fadd t fi) fi n) (advance rt f D fi (fadd t fi) n s')
         = Inl (Some r)"
      by blast
    with c have "good_prefix rt f recorder D fi t (Suc n)
        \<and> iteration rt f recorder D (sample t fi (Suc n)) (advance rt f D fi t (Suc n) s)
            = Inl (Some r)"
      by (simp add: good_prefix_Suc advance_Suc sample_Suc s')
    then show ?thesis ..
  qed
qed

lemma frame_loop_exit:
  "good_prefix rt f recorder D fi t n \<Longrightarrow>
   iteration rt f recorder D (sample t fi n) (advance rt f D fi t n s) = Inl r \<Longrightarrow>
   frame_loop rt f recorder D fi t s = r"
proof (induction n arbitrary: t s)
  case 0
  then show ?case
    by (subst frame_loop_iteration) simp
next
  case (Suc n)
  from Suc.prems(1) have c: "continues rt f recorder D t"
    and g: "good_prefix rt f recorder D fi (fadd t fi) n"
    by (simp_all add: good_prefix_Suc)
  from Suc.prems(2) have "iteration rt f recorder D (sample (fadd t fi) fi n)
      (advance rt f D fi (fadd t fi) n
         (s\<lparr>seeks := seeks s @ [fin t],
            drawn := drawn s @ [projr (engineFrame rt f (fin t))],
            emitted := emitted s @ [progress_of t D]\<rparr>)) = Inl r"
    by (simp add: advance_Suc sample_Suc)
  from Suc.IH [OF g this] show ?case
    by (subst frame_loop_iteration) (simp add: iteration_continues [OF c])
qed

text \<open>What one pass does to the object URL and to the recorder.\<close>

lemma iteration_exit_fields:
  assumes "iteration rt f recorder D t s = Inl (Some (x, s'))"
  shows "urlCreated s' = urlCreated s \<and> drawn s' = drawn s \<and> emitted s' = emitted s
       \<and> (case x of
            Done \<Rightarrow> s' = s
          | Thrown e \<Rightarrow> urlRevoked s' = urlRevoked s \<and> recorderState s' = recorderState s
          | Rejected e \<Rightarrow>
              urlRevoked s'
              \<and> recorderState s' = (if e = RecorderError then Inactive else recorderState s))"
  using assms
  by (auto simp: iteration_def Let_def
      split: number.splits seek_event.splits sum.splits if_splits)

lemma advance_fields [simp]:
  "urlCreated (advance rt f D fi t n s) = urlCreated s"
  "urlRevoked (advance rt f D fi t n s) = urlRevoked s"
  "recorderState (advance rt f D fi t n s) = recorderState s"
  "seeks (advance rt f D fi t n s) = seeks s @ map (\<lambda>i. fin (sample t fi i)) [0..<n]"
  "drawn (advance rt f D fi t n s) =
     drawn s @ map (\<lambda>i. projr (engineFrame rt f (fin (sample t fi i)))) [0..<n]"
  "emitted (advance rt f D fi t n s) =
     emitted s @ map (\<lambda>i. progress_of (sample t fi i) D) [0..<n]"
  by (simp_all add: advance_def)

section \<open>Properties of the video pipeline\<close>

lemma first_supported_none:
  "\<forall>ty \<in> set tys. \<not> supported ty \<Longrightarrow> first_supported supported tys = []"
  by (induction tys) simp_all

lemma first_supported_some:
  "\<exists>ty \<in> set tys. supported ty \<Longrightarrow>
   first_supported supported tys \<in> set tys \<and> supported (first_supported supported tys)"
  by (induction tys) auto

text \<open>The constructor is never given a type that it refuses.\<close>

lemma constructor_accepts: "\<not> constructor_throws rt (getSupportedMimeType rt)"
proof (cases "\<exists>ty \<in> set mime_types. isTypeSupported rt ty")
  case True
  from first_supported_some [OF this] show ?thesis
    by (simp add: constructor_throws_def getSupportedMimeType_def)
next
  case False
  then have "getSupportedMimeType rt = []"
    by (simp add: getSupportedMimeType_def first_supported_none)
  then show ?thesis
    by (simp add: constructor_throws_def)
qed

lemma removeWatermarkFromVideo_unsupported:
  "\<not> mediaRecorderDefined rt \<Longrightarrow>
   removeWatermarkFromVideo rt f = Some (Inl MediaRecorderUnsupported, pstate0)"
  by (simp add: removeWatermarkFromVideo_def)

lemma removeWatermarkFromVideo_load_error:
  "mediaRecorderDefined rt \<Longrightarrow> onLoad (mediaOf rt f) = LoadError \<Longrightarrow>
   removeWatermarkFromVideo rt f =
     Some (Inl FailedToLoadVideo, pstate0\<lparr>urlCreated := True, urlRevoked := True\<rparr>)"
  by (simp add: removeWatermarkFromVideo_def Let_def)

lemma removeWatermarkFromVideo_no_start:
  "mediaRecorderDefined rt \<Longrightarrow> onLoad (mediaOf rt f) = LoadedMetadata \<Longrightarrow>
   startThrows (recorder_of rt f) \<Longrightarrow>
   removeWatermarkFromVideo rt f =
     Some (Inl NotSupportedError,
           pstate0\<lparr>urlCreated := True, urlRevoked := True, recorderState := Inactive\<rparr>)"
  by (simp add: removeWatermarkFromVideo_def Let_def constructor_accepts recorder_of_def)

lemma removeWatermarkFromVideo_ready:
  "ready rt f \<Longrightarrow>
   removeWatermarkFromVideo rt f =
     (case loop_of rt f of
        None \<Rightarrow> None
      | Some (Rejected e, s1) \<Rightarrow> Some (Inl e, s1)
      | Some (Thrown e, s1) \<Rightarrow> Some (Inl e, s1\<lparr>urlRevoked := True\<rparr>)
      | Some (Done, s1) \<Rightarrow>
          (case onStop (recorder_of rt f) of
             StopNoEvent \<Rightarrow> None
           | StopRecorderError \<Rightarrow> Some (Inl RecorderError, finished s1)
           | Stopped \<Rightarrow>
               Some (Inr \<lparr>btype = recorder_mimeType rt (getSupportedMimeType rt),
                          bdata = drawn s1\<rparr>, finished s1)))"
  by (simp add: removeWatermarkFromVideo_def ready_def recording_def Let_def loop_of_def
      frameInterval_of_def fps_of_def finished_def constructor_accepts recorder_of_def
      split: option.splits prod.splits loop_exit.splits stop_event.splits)

lemma removeWatermarkFromVideo_no_load:
  "mediaRecorderDefined rt \<Longrightarrow> onLoad (mediaOf rt f) = LoadNoEvent \<Longrightarrow>
   removeWatermarkFromVideo rt f = None"
  by (simp add: removeWatermarkFromVideo_def Let_def)

lemma not_ready_result:
  assumes "\<not> ready rt f"
  shows "removeWatermarkFromVideo rt f = None
       \<or> removeWatermarkFromVideo rt f = Some (Inl MediaRecorderUnsupported, pstate0)
       \<or> removeWatermarkFromVideo rt f =
            Some (Inl FailedToLoadVideo, pstate0\<lparr>urlCreated := True, urlRevoked := True\<rparr>)
       \<or> removeWatermarkFromVideo rt f =
            Some (Inl NotSupportedError,
                  pstate0\<lparr>urlCreated := True, urlRevoked := True, recorderState := Inactive\<rparr>)"
proof (cases "mediaRecorderDefined rt")
  case False
  then show ?thesis by (simp add: removeWatermarkFromVideo_unsupported)
next
  case True
  show ?thesis
  proof (cases "onLoad (mediaOf rt f)")
    case LoadedMetadata
    with True assms have "startThrows (recorder_of rt f)" by (simp add: ready_def)
    from removeWatermarkFromVideo_no_start [OF True LoadedMetadata this] show ?thesis by simp
  next
    case LoadError
    from removeWatermarkFromVideo_load_error [OF True this] show ?thesis by simp
  next
    case LoadNoEvent
    from removeWatermarkFromVideo_no_load [OF True this] show ?thesis by simp
  qed
qed

lemma recording_fields [simp]:
  "seeks recording = []" "emitted recording = []" "drawn recording = []"
  "urlCreated recording" "\<not> urlRevoked recording" "recorderState recording = Recording"
  by (simp_all add: recording_def pstate0_def)

text \<open>Every settled run has revoked the object URL that it created.\<close>

lemma video_settled_revoked:
  assumes "removeWatermarkFromVideo rt f = Some (r, s)"
  shows "urlCreated s \<longrightarrow> urlRevoked s"
proof (cases "ready rt f")
  case False
  from not_ready_result [OF this] assms show ?thesis
    by (auto simp: pstate0_def)
next
  case True
  from assms obtain x s1 where l: "loop_of rt f = Some (x, s1)"
    unfolding removeWatermarkFromVideo_ready [OF True]
    by (auto split: option.splits)
  then obtain n where
    "iteration rt f (recorder_of rt f) (duration (mediaOf rt f))
       (sample (Fin 0) (frameInterval_of (mediaOf rt f)) n)
       (advance rt f (duration (mediaOf rt f)) (frameInterval_of (mediaOf rt f)) (Fin 0) n
          recording) = Inl (Some (x, s1))"
    unfolding loop_of_def by (auto dest: frame_loop_result)
  from iteration_exit_fields [OF this] have "(\<exists>e. x = Rejected e) \<longrightarrow> urlRevoked s1"
    by auto
  with assms l show ?thesis
    unfolding removeWatermarkFromVideo_ready [OF True]
    by (auto simp: finished_def split: loop_exit.splits stop_event.splits)
qed

text \<open>The successful runs.\<close>

lemma video_success:
  assumes "removeWatermarkFromVideo rt f = Some (Inr b, s)"
  shows "ready rt f \<and> onStop (recorder_of rt f) = Stopped
       \<and> (\<exists>n. good_prefix rt f (recorder_of rt f) (duration (mediaOf rt f))
                 (frameInterval_of (mediaOf rt f)) (Fin 0) n
            \<and> \<not> nle (sample (Fin 0) (frameInterval_of (mediaOf rt f)) n)
                     (duration (mediaOf rt f))
            \<and> s = finished (advance rt f (duration (mediaOf rt f))
                    (frameInterval_of (mediaOf rt f)) (Fin 0) n recording)
            \<and> b = \<lparr>btype = recorder_mimeType rt (getSupportedMimeType rt),
                    bdata = drawn s\<rparr>)"
proof -
  have r: "ready rt f"
  proof (rule ccontr)
    assume "\<not> ready rt f"
    from not_ready_result [OF this] assms show False
      by auto
  qed
  from assms obtain s1 where
    s1: "loop_of rt f = Some (Done, s1)" and st: "onStop (recorder_of rt f) = Stopped"
    and s: "s = finished s1"
    and b: "b = \<lparr>btype = recorder_mimeType rt (getSupportedMimeType rt), bdata = drawn s1\<rparr>"
    unfolding removeWatermarkFromVideo_ready [OF r]
    by (auto split: option.splits loop_exit.splits stop_event.splits)
  let ?D = "duration (mediaOf rt f)" and ?fi = "frameInterval_of (mediaOf rt f)"
  from s1 obtain n where g: "good_prefix rt f (recorder_of rt f) ?D ?fi (Fin 0) n"
    and "iteration rt f (recorder_of rt f) ?D (sample (Fin 0) ?fi n)
           (advance rt f ?D ?fi (Fin 0) n recording) = Inl (Some (Done, s1))"
    unfolding loop_of_def by (auto dest: frame_loop_result)
  then have "\<not> nle (sample (Fin 0) ?fi n) ?D"
    and "s1 = advance rt f ?D ?fi (Fin 0) n recording"
    by (simp_all add: iteration_Done)
  with r st s b g show ?thesis
    by (auto simp: finished_def)
qed

lemma video_success_intro:
  assumes "ready rt f" and "onStop (recorder_of rt f) = Stopped"
    and "good_prefix rt f (recorder_of rt f) (duration (mediaOf rt f))
           (frameInterval_of (mediaOf rt f)) (Fin 0) n"
    and "\<not> nle (sample (Fin 0) (frameInterval_of (mediaOf rt f)) n) (duration (mediaOf rt f))"
  shows "removeWatermarkFromVideo rt f =
     Some (Inr \<lparr>btype = recorder_mimeType rt (getSupportedMimeType rt),
                bdata = drawn (advance rt f (duration (mediaOf rt f))
                    (frameInterval_of (mediaOf rt f)) (Fin 0) n recording)\<rparr>,
           finished (advance rt f (duration (mediaOf rt f))
                    (frameInterval_of (mediaOf rt f)) (Fin 0) n recording))"
proof -
  let ?D = "duration (mediaOf rt f)" and ?fi = "frameInterval_of (mediaOf rt f)"
  have "iteration rt f (recorder_of rt f) ?D (sample (Fin 0) ?fi n)
          (advance rt f ?D ?fi (Fin 0) n recording)
        = Inl (Some (Done, advance rt f ?D ?fi (Fin 0) n recording))"
    using assms(4) by (simp add: iteration_Done)
  from frame_loop_exit [OF assms(3) this]
  have "loop_of rt f = Some (Done, advance rt f ?D ?fi (Fin 0) n recording)"
    unfolding loop_of_def .
  then show ?thesis
    unfolding removeWatermarkFromVideo_ready [OF assms(1)]
    by (simp add: assms(2))
qed

text \<open>
  The runs that are left in the pass at the sample of index \<open>n\<close>: by the error event of
  the element, by an exception of the engine, or never, when no event answers the seek.
\<close>

definition sought :: "rat \<Rightarrow> pstate \<Rightarrow> pstate" where
  "sought t s = s\<lparr>seeks := seeks s @ [t]\<rparr>"

lemma video_seek_error:
  assumes "ready rt f"
    and "good_prefix rt f (recorder_of rt f) (duration (mediaOf rt f))
           (frameInterval_of (mediaOf rt f)) (Fin 0) n"
    and "sample (Fin 0) (frameInterval_of (mediaOf rt f)) n = Fin x"
    and "nle (Fin x) (duration (mediaOf rt f))"
    and "\<not> errorAt (recorder_of rt f) x"
    and "onSeek (mediaOf rt f) x = SeekVideoError"
  shows "removeWatermarkFromVideo rt f =
     Some (Inl FailedToLoadVideo,
           (sought x
              (advance rt f (duration (mediaOf rt f)) (frameInterval_of (mediaOf rt f))
                 (Fin 0) n recording))\<lparr>urlRevoked := True\<rparr>)"
proof -
  let ?D = "duration (mediaOf rt f)" and ?fi = "frameInterval_of (mediaOf rt f)"
  let ?s = "(sought x (advance rt f ?D ?fi (Fin 0) n recording))\<lparr>urlRevoked := True\<rparr>"
  have "iteration rt f (recorder_of rt f) ?D (sample (Fin 0) ?fi n)
          (advance rt f ?D ?fi (Fin 0) n recording)
        = Inl (Some (Rejected FailedToLoadVideo, ?s))"
    using assms(4-6)
    by (simp add: iteration_def assms(3) nmin_within Let_def sought_def)
  from frame_loop_exit [OF assms(2) this]
  have "loop_of rt f = Some (Rejected FailedToLoadVideo, ?s)"
    unfolding loop_of_def .
  then show ?thesis
    unfolding removeWatermarkFromVideo_ready [OF assms(1)] by simp
qed

lemma video_transform_error:
  assumes "ready rt f"
    and "good_prefix rt f (recorder_of rt f) (duration (mediaOf rt f))
           (frameInterval_of (mediaOf rt f)) (Fin 0) n"
    and "sample (Fin 0) (frameInterval_of (mediaOf rt f)) n = Fin x"
    and "nle (Fin x) (duration (mediaOf rt f))"
    and "\<not> errorAt (recorder_of rt f) x"
    and "onSeek (mediaOf rt f) x = Seeked"
    and "engineFrame rt f x = Inl e"
  shows "removeWatermarkFromVideo rt f =
     Some (Inl e,
           (sought x
              (advance rt f (duration (mediaOf rt f)) (frameInterval_of (mediaOf rt f))
                 (Fin 0) n recording))\<lparr>urlRevoked := True\<rparr>)"
proof -
  let ?D = "duration (mediaOf rt f)" and ?fi = "frameInterval_of (mediaOf rt f)"
  let ?s = "sought x (advance rt f ?D ?fi (Fin 0) n recording)"
  have "iteration rt f (recorder_of rt f) ?D (sample (Fin 0) ?fi n)
          (advance rt f ?D ?fi (Fin 0) n recording)
        = Inl (Some (Thrown e, ?s))"
    using assms(4-7)
    by (simp add: iteration_def assms(3) nmin_within Let_def sought_def)
  from frame_loop_exit [OF assms(2) this]
  have "loop_of rt f = Some (Thrown e, ?s)"
    unfolding loop_of_def .
  then show ?thesis
    unfolding removeWatermarkFromVideo_ready [OF assms(1)] by simp
qed

lemma video_stalled_seek:
  assumes "ready rt f"
    and "good_prefix rt f (recorder_of rt f) (duration (mediaOf rt f))
           (frameInterval_of (mediaOf rt f)) (Fin 0) n"
    and "sample (Fin 0) (frameInterval_of (mediaOf rt f)) n = Fin x"
    and "nle (Fin x) (duration (mediaOf rt f))"
    and "\<not> errorAt (recorder_of rt f) x"
    and "onSeek (mediaOf rt f) x = SeekNoEvent"
  shows "removeWatermarkFromVideo rt f = None"
proof -
  let ?D = "duration (mediaOf rt f)" and ?fi = "frameInterval_of (mediaOf rt f)"
  have "iteration rt f (recorder_of rt f) ?D (sample (Fin 0) ?fi n)
          (advance rt f ?D ?fi (Fin 0) n recording) = Inl None"
    using assms(4-6)
    by (simp add: iteration_def assms(3) nmin_within Let_def)
  from frame_loop_exit [OF assms(2) this]
  have "loop_of rt f = None"
    unfolding loop_of_def .
  then show ?thesis
    unfolding removeWatermarkFromVideo_ready [OF assms(1)] by simp
qed

text \<open>
  A run that fails inside the loop, other than by an error of the recorder itself,
  leaves the recorder recording: \<^verbatim>\<open>recorder.stop()\<close> is reached after the loop only.
\<close>

lemma video_failure_keeps_recording:
  assumes "ready rt f" and "loop_of rt f = Some (x, s1)"
    and "x \<noteq> Done" and "x \<noteq> Rejected RecorderError"
  shows "\<exists>e s. removeWatermarkFromVideo rt f = Some (Inl e, s)
           \<and> urlRevoked s \<and> recorderState s = Recording"
proof -
  from assms(2) obtain n where
    "iteration rt f (recorder_of rt f) (duration (mediaOf rt f))
       (sample (Fin 0) (frameInterval_of (mediaOf rt f)) n)
       (advance rt f (duration (mediaOf rt f)) (frameInterval_of (mediaOf rt f)) (Fin 0) n
          recording) = Inl (Some (x, s1))"
    unfolding loop_of_def by (auto dest: frame_loop_result)
  from iteration_exit_fields [OF this] assms(3,4) have
    "recorderState s1 = Recording" "(\<exists>e. x = Rejected e) \<longrightarrow> urlRevoked s1"
    by (auto split: loop_exit.splits if_splits)
  with assms(2-4) show ?thesis
    unfolding removeWatermarkFromVideo_ready [OF assms(1)]
    by (cases x) auto
qed

text \<open>
  The progress of a time within a positive, finite duration is an integer from 0 to 100 and
  grows with the time.
\<close>

definition pct :: "rat \<Rightarrow> rat \<Rightarrow> int" where
  "pct x D = \<lfloor>grid (grid (x / D) * 100) + 1 / 2\<rfloor>"

lemma max_double_large: "100 \<le> max_double"
proof -
  have "(1::rat) \<le> 2 ^ 971" by (rule one_le_power) simp
  then have "(2 ^ 53 - 1) * (1::rat) \<le> (2 ^ 53 - 1) * 2 ^ 971"
    by (intro mult_left_mono) simp_all
  then show ?thesis by (simp add: max_double_def)
qed

lemma fl_within: "- max_double \<le> grid x \<Longrightarrow> grid x \<le> max_double \<Longrightarrow> fl x = Fin (grid x)"
  by (simp add: fl_def Let_def)

lemma progress_of_within:
  assumes "0 \<le> x" and "x \<le> D" and "0 < D"
  shows "progress_of (Fin x) (Fin D) = Fin (of_int (pct x D)) \<and> 0 \<le> pct x D \<and> pct x D \<le> 100"
proof -
  define q where "q = grid (x / D)"
  define p where "p = grid (q * 100)"
  have "0 \<le> x / D" "x / D \<le> 1" using assms by simp_all
  then have q: "0 \<le> q" "q \<le> 1"
    unfolding q_def using grid_nonneg [of "x / D"] grid_mono [of "x / D" 1] by simp_all
  then have "0 \<le> q * 100" "q * 100 \<le> 100" by simp_all
  then have p: "0 \<le> p" "p \<le> 100"
    unfolding p_def using grid_nonneg [of "q * 100"] grid_mono [of "q * 100" 100] by simp_all
  have 1: "fdiv (Fin x) (Fin D) = Fin q"
    using assms(3) q max_double_large fl_within [of "x / D"] by (simp add: q_def)
  have 2: "fmul (Fin q) (Fin 100) = Fin p"
    using p max_double_large fl_within [of "q * 100"] by (simp add: p_def)
  define k where "k = \<lfloor>p + 1 / 2\<rfloor>"
  have "0 \<le> p + 1 / 2" "p + 1 / 2 < 101"
    using p by simp_all
  then have k: "0 \<le> k" "k \<le> 100"
    unfolding k_def by (simp_all add: floor_less_iff [of _ 101, simplified] le_floor_iff)
  have 3: "nround (Fin p) = Fin (of_int k)"
    by (simp add: k_def)
  have "k = 100" if "(100::rat) \<le> of_int k"
  proof -
    from that have "(of_int 100 :: rat) \<le> of_int k" by simp
    then have "100 \<le> k" by (simp only: of_int_le_iff)
    with k(2) show ?thesis by simp
  qed
  then have 4: "nmin (Fin 100) (Fin (of_int k)) = Fin (of_int k)"
    by auto
  have "pct x D = k"
    by (simp add: pct_def p_def q_def k_def)
  with k 1 2 3 4 show ?thesis
    by (simp add: progress_of_def)
qed

lemma pct_mono:
  assumes "0 \<le> x" and "x \<le> y" and "0 < D"
  shows "pct x D \<le> pct y D"
proof -
  have "x / D \<le> y / D" "0 \<le> x / D"
    using assms by (simp_all add: divide_right_mono)
  then have "grid (x / D) \<le> grid (y / D)" "0 \<le> grid (x / D)"
    by (simp_all add: grid_mono grid_nonneg)
  then have "grid (x / D) * 100 \<le> grid (y / D) * 100" "0 \<le> grid (x / D) * 100"
    by simp_all
  then have "grid (grid (x / D) * 100) \<le> grid (grid (y / D) * 100)"
    by (rule grid_mono [rotated])
  then show ?thesis
    unfolding pct_def by (intro floor_mono) simp
qed

text \<open>
  The samples of a loop that is left by its condition.  The sum of two numbers is finite
  only when both are, and the sum of a number below zero and an interval that is not
  positive stays below zero.  So the interval of such a loop is positive as soon as there
  are two samples, and the samples grow: each is a binary64 number, and rounding is
  monotone.
\<close>

lemma fadd_Fin:
  assumes "fadd (Fin x) fi = Fin y"
  shows "\<exists>d. fi = Fin d \<and> y = grid (x + d)"
  using assms by (cases fi) (auto simp: fl_def Let_def split: if_splits)

lemma max_double_nonneg: "0 \<le> max_double"
  using max_double_large by simp

lemma sample_nonpos:
  assumes "d \<le> 0"
  shows "sample (Fin 0) (Fin d) i = NegInf \<or> (\<exists>x \<le> 0. sample (Fin 0) (Fin d) i = Fin x)"
proof (induction i)
  case 0
  show ?case by simp
next
  case (Suc i)
  from Suc show ?case
  proof
    assume "sample (Fin 0) (Fin d) i = NegInf"
    then show ?thesis by (simp add: sample_next)
  next
    assume "\<exists>x \<le> 0. sample (Fin 0) (Fin d) i = Fin x"
    then obtain x where x: "x \<le> 0" "sample (Fin 0) (Fin d) i = Fin x" by blast
    have "grid (x + d) \<le> 0"
      using x(1) assms by (intro grid_nonpos) simp
    with max_double_nonneg
    have "fl (x + d) = NegInf \<or> fl (x + d) = Fin (grid (x + d))"
      by (auto simp: fl_def Let_def)
    with \<open>grid (x + d) \<le> 0\<close> show ?thesis
      by (auto simp: sample_next x(2))
  qed
qed

lemma continues_Fin:
  assumes "continues rt f recorder D t"
  shows "\<exists>x. t = Fin x \<and> nle (Fin x) D \<and> \<not> errorAt recorder x
           \<and> onSeek (mediaOf rt f) x = Seeked \<and> \<not> isl (engineFrame rt f x)"
  using assms by (cases t) (simp_all add: continues_def)

lemma samples_sorted:
  assumes g: "good_prefix rt f recorder (Fin D) fi (Fin 0) n"
    and e: "\<not> nle (sample (Fin 0) fi n) (Fin D)" and D: "0 \<le> D"
  shows "\<forall>i<n. \<exists>x. sample (Fin 0) fi i = Fin x \<and> 0 \<le> x \<and> x \<le> D \<and> grid x = x
           \<and> (\<forall>j<i. fin (sample (Fin 0) fi j) \<le> x)"
proof -
  have within: "\<exists>x. sample (Fin 0) fi i = Fin x \<and> x \<le> D" if "i < n" for i
  proof -
    from g that have "continues rt f recorder (Fin D) (sample (Fin 0) fi i)"
      by (simp add: good_prefix_def)
    from continues_Fin [OF this] show ?thesis by auto
  qed
  have step: "\<exists>x y. sample (Fin 0) fi i = Fin x \<and> sample (Fin 0) fi (Suc i) = Fin y
      \<and> (0 \<le> x \<and> grid x = x \<longrightarrow> x \<le> y \<and> 0 \<le> y \<and> grid y = y)"
    if i: "Suc i < n" for i
  proof -
    from within [of i] i obtain x where x: "sample (Fin 0) fi i = Fin x" by auto
    from within [OF i] obtain y where y: "sample (Fin 0) fi (Suc i) = Fin y" by auto
    from y have "fadd (Fin x) fi = Fin y" by (simp add: sample_next x)
    from fadd_Fin [OF this] obtain d where d: "fi = Fin d" "y = grid (x + d)" by blast
    have pos: "0 < d"
    proof (rule ccontr)
      assume "\<not> 0 < d"
      then have "d \<le> 0" by simp
      from sample_nonpos [OF this, of n] D e show False
        by (auto simp: d(1))
    qed
    have "x \<le> y \<and> 0 \<le> y \<and> grid y = y" if "0 \<le> x" "grid x = x"
    proof -
      have "grid x \<le> grid (x + d)"
        using that(1) pos by (intro grid_mono) simp_all
      then have "x \<le> y" by (simp add: that(2) d(2))
      moreover have "0 \<le> x + d" using that(1) pos by simp
      then have "0 \<le> y" "grid y = y"
        unfolding d(2) by (simp_all add: grid_nonneg grid_grid)
      ultimately show ?thesis by simp
    qed
    with x y show ?thesis by blast
  qed
  have inv: "\<exists>x. sample (Fin 0) fi i = Fin x \<and> 0 \<le> x \<and> grid x = x
      \<and> (\<forall>j<i. fin (sample (Fin 0) fi j) \<le> x)" if "i < n" for i
    using that
  proof (induction i)
    case 0
    show ?case by simp
  next
    case (Suc i)
    then obtain x where x: "sample (Fin 0) fi i = Fin x" "0 \<le> x" "grid x = x"
      "\<forall>j<i. fin (sample (Fin 0) fi j) \<le> x"
      by auto
    from step [OF Suc.prems] x obtain y where
      y: "sample (Fin 0) fi (Suc i) = Fin y" "x \<le> y" "0 \<le> y" "grid y = y"
      by auto
    have "fin (sample (Fin 0) fi j) \<le> y" if "j < Suc i" for j
    proof (cases "j = i")
      case True
      with x(1) y(2) show ?thesis by simp
    next
      case False
      with that have "j < i" by simp
      with x(4) y(2) show ?thesis by force
    qed
    with y show ?case by blast
  qed
  show ?thesis
  proof (intro allI impI)
    fix i assume i: "i < n"
    from inv [OF i] within [OF i] show "\<exists>x. sample (Fin 0) fi i = Fin x \<and> 0 \<le> x \<and> x \<le> D
        \<and> grid x = x \<and> (\<forall>j<i. fin (sample (Fin 0) fi j) \<le> x)"
      by auto
  qed
qed

section \<open>Properties of the scheduler\<close>

lemma loaded_set_status [simp]: "loaded (set_status st it) = loaded it"
  by (simp add: loaded_def set_status_def)

lemma claim_untouched: "untouched it \<Longrightarrow> claimed (claim it)"
  by (simp add: untouched_def fresh_def claimed_def claim_def set_status_def loaded_def)

text \<open>What the \<^verbatim>\<open>try\<close> block and its \<^verbatim>\<open>catch\<close> do to a claimed item.\<close>

lemma run_job_claimed:
  assumes "run_job rt it = Some (it', incremented)" and "claimed it"
  shows "settled it' \<and> (incremented \<longleftrightarrow> status it' = Completed)"
proof (cases "isVideo it")
  case True
  with assms show ?thesis
    by (auto simp: run_job_def claimed_def settled_def set_status_def
        split: option.splits sum.splits prod.splits)
next
  case False
  with assms(2) have "originalImg it \<noteq> None"
    by (simp add: claimed_def loaded_def)
  with assms False show ?thesis
    by (auto simp: run_job_def claimed_def settled_def set_status_def Let_def
        split: option.splits sum.splits prod.splits)
qed




lemma job_pending:
  "status it = Pending \<Longrightarrow> job rt it = run_job rt (claim it)"
  by (simp add: job_def claim_def)

lemma job_untouched:
  assumes "job rt it = Some (it', incremented)" and "untouched it"
  shows "settled it' \<and> (incremented \<longleftrightarrow> status it' = Completed)"
proof -
  from assms(2) have "status it = Pending"
    by (simp add: untouched_def fresh_def)
  with assms(1) have "run_job rt (claim it) = Some (it', incremented)"
    by (simp add: job_pending)
  from run_job_claimed [OF this claim_untouched [OF assms(2)]] show ?thesis .
qed

text \<open>Counting the Completed items of a queue after one item changed.\<close>

lemma completed_count_update:
  assumes "j < length q"
  shows "completed_count (q[j := x]) + (if status (q ! j) = Completed then 1 else 0)
       = completed_count q + (if status x = Completed then 1 else 0)"
proof -
  have q: "q = take j q @ (q ! j) # drop (Suc j) q"
    using assms by (simp add: id_take_nth_drop)
  have u: "q[j := x] = take j q @ x # drop (Suc j) q"
    using assms by (simp add: upd_conv_take_nth_drop)
  have "completed_count (take j q @ x # drop (Suc j) q)
          + (if status (q ! j) = Completed then 1 else 0)
      = completed_count (take j q @ (q ! j) # drop (Suc j) q)
          + (if status x = Completed then 1 else 0)"
    by (simp add: completed_count_def completed_items_def)
  then show ?thesis
    using q u by simp
qed

lemma completed_count_same_status:
  assumes "length q' = length q"
    and "\<forall>j < length q. (status (q' ! j) = Completed) = (status (q ! j) = Completed)"
  shows "completed_count q' = completed_count q"
  using assms
proof (induction q arbitrary: q')
  case Nil
  then show ?case by simp
next
  case (Cons x q)
  then obtain y ys where q': "q' = y # ys"
    by (cases q') simp_all
  with Cons.prems have len: "length ys = length q"
    by simp
  have hd: "(status y = Completed) = (status x = Completed)"
    using Cons.prems(2) q' by auto
  have "\<forall>j < length q. (status (ys ! j) = Completed) = (status (q ! j) = Completed)"
    using Cons.prems(2) q' by auto
  from Cons.IH [OF len this] hd show ?case
    by (simp add: q' completed_count_def completed_items_def)
qed

lemma run_job_same_file:
  assumes "run_job rt it = Some (it', incremented)"
  shows "ifile it' = ifile it \<and> isVideo it' = isVideo it \<and> name it' = name it
       \<and> ident it' = ident it"
  using assms
  by (auto simp: run_job_def set_status_def Let_def
      split: option.splits sum.splits prod.splits if_splits)

lemma job_same_file:
  assumes "job rt it = Some (it', incremented)"
  shows "ifile it' = ifile it \<and> isVideo it' = isVideo it \<and> name it' = name it
       \<and> ident it' = ident it"
proof (cases "status it = Pending")
  case True
  with assms have "run_job rt (set_status Processing it) = Some (it', incremented)"
    by (simp add: job_def)
  from run_job_same_file [OF this] show ?thesis
    by (simp add: set_status_def)
next
  case False
  with assms show ?thesis by (simp add: job_def)
qed

lemma run_job_responsive: "responsive rt it \<Longrightarrow> \<exists>r. run_job rt it = Some r"
  by (auto simp: run_job_def responsive_def Let_def
      split: option.splits sum.splits prod.splits)

lemma job_responsive: "responsive rt it \<Longrightarrow> \<exists>it' incremented. job rt it = Some (it', incremented)"
proof -
  assume r: "responsive rt it"
  then have "responsive rt (set_status Processing it)"
    by (simp add: responsive_def set_status_def)
  from run_job_responsive [OF this] show ?thesis
    by (cases "status it = Pending") (auto simp: job_def)
qed

lemma job_at_chunk_inv:
  assumes "job_at rt k s = Some s'" and "chunk_inv k s" and "k < length (imageQueue s)"
  shows "chunk_inv (Suc k) s'"
proof -
  let ?q = "imageQueue s"
  from assms(1) obtain it' incremented where
    j: "job rt (?q ! k) = Some (it', incremented)"
    and s': "s' = \<lparr>imageQueue = ?q[k := it'],
                    processedCount = (if incremented then processedCount s + 1
                                      else processedCount s)\<rparr>"
    by (auto simp: job_at_def split: option.splits prod.splits)
  from assms(2,3) have u: "untouched (?q ! k)"
    by (auto simp: chunk_inv_def)
  from job_untouched [OF j u] have st: "settled it'"
    and inc: "incremented \<longleftrightarrow> status it' = Completed"
    by simp_all
  from u have "status (?q ! k) \<noteq> Completed"
    by (simp add: untouched_def fresh_def)
  with completed_count_update [OF assms(3), of it']
  have "completed_count (?q[k := it']) = completed_count ?q + (if status it' = Completed then 1 else 0)"
    by simp
  then have cnt: "processedCount s' = length (completed_items (imageQueue s'))"
    using assms(2) inc by (simp add: s' chunk_inv_def completed_count_def)
  have "if j < Suc k then settled (imageQueue s' ! j) else untouched (imageQueue s' ! j)"
    if "j < length (imageQueue s')" for j
  proof (cases "j = k")
    case True
    with st assms(3) show ?thesis by (simp add: s')
  next
    case False
    with that assms(2) show ?thesis
      by (auto simp: s' chunk_inv_def)
  qed
  with cnt show ?thesis
    by (simp add: chunk_inv_def)
qed

lemma jobs_at_chunk_inv:
  assumes "jobs_at rt [k ..< m] s = Some s'" and "chunk_inv k s" and "m \<le> length (imageQueue s)"
    and "k \<le> m"
  shows "chunk_inv m s'"
  using assms
proof (induction "m - k" arbitrary: k s)
  case 0
  then show ?case by simp
next
  case (Suc d)
  then have km: "k < m" by simp
  then have up: "[k ..< m] = k # [Suc k ..< m]"
    by (simp add: upt_rec)
  from Suc.prems(1) obtain s1 where
    1: "job_at rt k s = Some s1" and 2: "jobs_at rt [Suc k ..< m] s1 = Some s'"
    unfolding up by (auto split: option.splits)
  have kl: "k < length (imageQueue s)"
    using km Suc.prems(3) by simp
  from job_at_chunk_inv [OF 1 Suc.prems(2) kl] have i1: "chunk_inv (Suc k) s1" .
  have l1: "m \<le> length (imageQueue s1)"
    using job_at_length [OF 1] Suc.prems(3) by simp
  have "d = m - Suc k"
    using Suc.hyps(2) by simp
  from Suc.hyps(1) [OF this 2 i1 l1] km show ?case by simp
qed

lemma queue_loop_chunk_inv:
  assumes "queue_loop rt i s = Some s'" and "chunk_inv i s"
  shows "length (imageQueue s') = length (imageQueue s)
       \<and> (\<forall>it \<in> set (imageQueue s'). settled it)
       \<and> processedCount s' = length (completed_items (imageQueue s'))"
  using assms
proof (induction rt i s rule: queue_loop.induct)
  case (1 rt i s)
  let ?n = "length (imageQueue s)"
  show ?case
  proof (cases "i < ?n")
    case False
    with "1.prems" have "s' = s"
      by (simp add: queue_loop.simps)
    moreover have "\<forall>it \<in> set (imageQueue s). settled it"
      using "1.prems"(2) False by (auto simp: chunk_inv_def in_set_conv_nth)
    ultimately show ?thesis
      using "1.prems"(2) by (simp add: chunk_inv_def)
  next
    case True
    with "1.prems"(1) obtain s1 where
      a: "jobs_at rt (slice_indices i ?n) s = Some s1"
      and b: "queue_loop rt (i + concurrency) s1 = Some s'"
      by (subst (asm) queue_loop.simps) (auto split: option.splits)
    have len: "length (imageQueue s1) = ?n"
      using a by (rule jobs_at_length)
    let ?m = "min (i + concurrency) ?n"
    from a have "jobs_at rt [i ..< ?m] s = Some s1"
      by (simp add: slice_indices_def)
    from jobs_at_chunk_inv [OF this "1.prems"(2)] True
    have "chunk_inv ?m s1" by simp
    then have "chunk_inv (i + concurrency) s1"
      by (auto simp: chunk_inv_def len min_def split: if_splits)
    from "1.IH" [OF True a b this] len show ?thesis by simp
  qed
qed

lemma job_at_responsive:
  assumes "job_at rt k s = Some s'" and "\<forall>it \<in> set (imageQueue s). responsive rt it"
    and "k < length (imageQueue s)"
  shows "\<forall>it \<in> set (imageQueue s'). responsive rt it"
proof -
  from assms(1) obtain it' incremented where
    j: "job rt (imageQueue s ! k) = Some (it', incremented)"
    and q: "imageQueue s' = (imageQueue s)[k := it']"
    by (auto simp: job_at_def split: option.splits prod.splits)
  have "responsive rt (imageQueue s ! k)"
    using assms(2,3) by simp
  with job_same_file [OF j] have "responsive rt it'"
    by (simp add: responsive_def)
  with assms(2) show ?thesis
    unfolding q by (auto dest: set_update_subset_insert [THEN subsetD])
qed

lemma jobs_at_total:
  assumes "\<forall>it \<in> set (imageQueue s). responsive rt it"
    and "\<forall>j \<in> set js. j < length (imageQueue s)"
  shows "\<exists>s'. jobs_at rt js s = Some s'"
  using assms
proof (induction js arbitrary: s)
  case Nil
  show ?case by simp
next
  case (Cons k js)
  have k: "k < length (imageQueue s)"
    using Cons.prems(2) by simp
  then have "responsive rt (imageQueue s ! k)"
    using Cons.prems(1) by simp
  from job_responsive [OF this] obtain s1 where 1: "job_at rt k s = Some s1"
    by (auto simp: job_at_def)
  have "\<forall>j \<in> set js. j < length (imageQueue s1)"
    using Cons.prems(2) job_at_length [OF 1] by simp
  from Cons.IH [OF job_at_responsive [OF 1 Cons.prems(1) k] this] 1
  show ?case by simp
qed

lemma jobs_at_responsive:
  assumes "jobs_at rt js s = Some s'" and "\<forall>it \<in> set (imageQueue s). responsive rt it"
    and "\<forall>j \<in> set js. j < length (imageQueue s)"
  shows "\<forall>it \<in> set (imageQueue s'). responsive rt it"
  using assms
proof (induction js arbitrary: s)
  case Nil
  then show ?case by simp
next
  case (Cons k js)
  from Cons.prems(1) obtain s1 where
    1: "job_at rt k s = Some s1" and 2: "jobs_at rt js s1 = Some s'"
    by (auto split: option.splits)
  have k: "k < length (imageQueue s)"
    using Cons.prems(3) by simp
  have "\<forall>j \<in> set js. j < length (imageQueue s1)"
    using Cons.prems(3) job_at_length [OF 1] by simp
  from Cons.IH [OF 2 job_at_responsive [OF 1 Cons.prems(2) k] this] show ?case .
qed

lemma queue_loop_total:
  assumes "\<forall>it \<in> set (imageQueue s). responsive rt it"
  shows "\<exists>s'. queue_loop rt i s = Some s'"
  using assms
proof (induction rt i s rule: queue_loop.induct)
  case (1 rt i s)
  let ?n = "length (imageQueue s)"
  show ?case
  proof (cases "i < ?n")
    case False
    then show ?thesis by (simp add: queue_loop.simps)
  next
    case True
    have in_range: "\<forall>j \<in> set (slice_indices i ?n). j < ?n"
      by (simp add: slice_indices_def)
    from jobs_at_total [OF "1.prems" in_range] obtain s1 where
      a: "jobs_at rt (slice_indices i ?n) s = Some s1" ..
    from "1.IH" [OF True a jobs_at_responsive [OF a "1.prems" in_range]]
    obtain s' where "queue_loop rt (i + concurrency) s1 = Some s'" ..
    with True a have "queue_loop rt i s = Some s'"
      by (subst queue_loop.simps) simp
    then show ?thesis ..
  qed
qed

text \<open>The first \<^verbatim>\<open>Promise.all\<close> on a new batch.\<close>

lemma preload_no_rejection:
  "snd (preload rt q) = [] \<longleftrightarrow> (\<forall>it \<in> set q. \<not> isl (preload_item rt it))"
  by (induction q)
    (auto simp: preload_def List.map_filter_def split: sum.splits)

lemma preload_untouched:
  assumes "snd (preload rt q) = []" and "list_all fresh q"
  shows "length (fst (preload rt q)) = length q
       \<and> (\<forall>j < length q. untouched (fst (preload rt q) ! j))"
proof -
  have "untouched (case preload_item rt it of Inl e \<Rightarrow> it | Inr it' \<Rightarrow> it')"
    if "it \<in> set q" for it
  proof -
    from that assms have f: "fresh it" and ok: "\<not> isl (preload_item rt it)"
      by (simp_all add: preload_no_rejection list_all_iff)
    then show ?thesis
      by (auto simp: preload_item_def untouched_def fresh_def loaded_def
          split: sum.splits if_splits)
  qed
  then show ?thesis
    by (simp add: preload_def)
qed






lemma dispatch_nth:
  "j < length (imageQueue s) \<Longrightarrow>
   imageQueue (dispatch s) ! j =
     (if in_slice (loop_i s) j then claim (imageQueue s ! j) else imageQueue s ! j)"
  by (simp add: dispatch_def nth_enumerate_eq)

lemma dispatch_fields [simp]:
  "length (imageQueue (dispatch s)) = length (imageQueue s)"
  "loop_i (dispatch s) = loop_i s"
  "awaiting (dispatch s)"
  "processedCount (dispatch s) = processedCount s"
  "suspended (dispatch s) =
     {j. j < length (imageQueue s) \<and> in_slice (loop_i s) j \<and> status (imageQueue s ! j) = Pending}"
  by (simp_all add: dispatch_def)

lemma resume_fields [simp]:
  "imageQueue (resume j it incremented s) = (imageQueue s)[j := it]"
  "loop_i (resume j it incremented s) = loop_i s"
  "awaiting (resume j it incremented s) = awaiting s"
  "processedCount (resume j it incremented s) =
     (if incremented then processedCount s + 1 else processedCount s)"
  "suspended (resume j it incremented s) = suspended s - {j}"
  by (simp_all add: resume_def)

lemma join_fields [simp]:
  "imageQueue (join s) = imageQueue s"
  "loop_i (join s) = loop_i s + concurrency"
  "\<not> awaiting (join s)"
  "processedCount (join s) = processedCount s"
  "suspended (join s) = suspended s"
  by (simp_all add: join_def)

lemma run_inv_start:
  assumes "\<forall>it \<in> set (imageQueue s0). untouched it" and "processedCount s0 = 0"
  shows "run_inv (length (imageQueue s0)) (start s0)"
proof -
  have "\<forall>it \<in> set (imageQueue s0). status it \<noteq> Completed"
    using assms(1) by (auto simp: untouched_def fresh_def)
  then have "completed_items (imageQueue s0) = []"
    by (simp add: completed_items_def filter_empty_conv)
  with assms show ?thesis
    by (simp add: run_inv_def start_def)
qed

lemma run_inv_dispatch:
  assumes inv: "run_inv n s" and idle: "\<not> awaiting s"
  shows "run_inv n (dispatch s)"
proof -
  let ?q = "imageQueue s" and ?i = "loop_i s"
  from inv have len: "length ?q = n" and dvd: "concurrency dvd ?i"
    and cnt: "processedCount s = length (completed_items ?q)"
    by (simp_all add: run_inv_def)
  from inv idle have nosusp: "suspended s = {}"
    by (simp add: run_inv_def)
  have items: "if j < ?i then settled (?q ! j) else untouched (?q ! j)" if "j < n" for j
    using inv idle nosusp that by (auto simp: run_inv_def split: if_splits)
  have pend: "status (?q ! j) = Pending" if "j < n" "in_slice ?i j" for j
    using items [OF that(1)] that(2) by (simp add: in_slice_def untouched_def fresh_def)
  have susp: "suspended (dispatch s) = {j. j < n \<and> in_slice ?i j}"
    using pend by (auto simp: len)
  have new_items: "if j \<in> suspended (dispatch s) then claimed (imageQueue (dispatch s) ! j)
      else if j < ?i \<or> in_slice ?i j then settled (imageQueue (dispatch s) ! j)
      else untouched (imageQueue (dispatch s) ! j)" if "j < n" for j
  proof (cases "in_slice ?i j")
    case True
    then have "untouched (?q ! j)"
      using items [OF that] by (simp add: in_slice_def)
    then show ?thesis
      using True that by (simp add: susp dispatch_nth len claim_untouched del: dispatch_fields(5))
  next
    case False
    then show ?thesis
      using items [OF that] that by (simp add: susp dispatch_nth len del: dispatch_fields(5))
  qed
  have same: "(status (imageQueue (dispatch s) ! j) = Completed) = (status (?q ! j) = Completed)"
    if "j < n" for j
  proof (cases "in_slice ?i j")
    case True
    with pend [OF that] that show ?thesis
      by (simp add: dispatch_nth len claim_def set_status_def)
  next
    case False
    with that show ?thesis by (simp add: dispatch_nth len)
  qed
  have "completed_count (imageQueue (dispatch s)) = completed_count ?q"
    by (rule completed_count_same_status) (simp_all add: same len)
  then have cnt': "processedCount (dispatch s) = length (completed_items (imageQueue (dispatch s)))"
    using cnt by (simp add: completed_count_def)
  show ?thesis
    unfolding run_inv_def
    using len dvd susp new_items cnt' by (simp del: dispatch_fields(5))
qed

lemma run_inv_resume:
  assumes inv: "run_inv n s" and j: "j \<in> suspended s"
    and r: "run_job rt (imageQueue s ! j) = Some (it, incremented)"
  shows "run_inv n (resume j it incremented s)"
proof -
  let ?q = "imageQueue s" and ?i = "loop_i s"
  from inv have len: "length ?q = n" and dvd: "concurrency dvd ?i"
    and cnt: "processedCount s = length (completed_items ?q)"
    and sub: "suspended s \<subseteq> {j. j < n \<and> in_slice ?i j}"
    by (simp_all add: run_inv_def)
  from inv j have aw: "awaiting s"
    by (auto simp: run_inv_def)
  from sub j have jn: "j < n" and js: "in_slice ?i j"
    by auto
  from inv j jn have cl: "claimed (?q ! j)"
    by (auto simp: run_inv_def)
  from run_job_claimed [OF r cl] have st: "settled it"
    and inc: "incremented \<longleftrightarrow> status it = Completed"
    by simp_all
  have "status (?q ! j) \<noteq> Completed"
    using cl by (simp add: claimed_def)
  with completed_count_update [of j ?q it] jn len
  have "completed_count (?q[j := it]) = completed_count ?q + (if status it = Completed then 1 else 0)"
    by simp
  then have cnt': "processedCount (resume j it incremented s)
      = length (completed_items (imageQueue (resume j it incremented s)))"
    using cnt inc by (simp add: resume_def completed_count_def)
  let ?s' = "resume j it incremented s"
  have items: "\<forall>k < n.
      if k \<in> suspended ?s' then claimed (imageQueue ?s' ! k)
      else if k < loop_i ?s' \<or> awaiting ?s' \<and> in_slice (loop_i ?s') k
        then settled (imageQueue ?s' ! k)
        else untouched (imageQueue ?s' ! k)"
  proof (intro allI impI)
    fix k
    assume k: "k < n"
    show "if k \<in> suspended ?s' then claimed (imageQueue ?s' ! k)
      else if k < loop_i ?s' \<or> awaiting ?s' \<and> in_slice (loop_i ?s') k
        then settled (imageQueue ?s' ! k)
        else untouched (imageQueue ?s' ! k)"
    proof (cases "k = j")
      case True
      with st jn js aw len show ?thesis by simp
    next
      case False
      have "if k \<in> suspended s then claimed (?q ! k)
        else if k < ?i \<or> awaiting s \<and> in_slice ?i k then settled (?q ! k)
        else untouched (?q ! k)"
        using inv k by (simp add: run_inv_def)
      with False show ?thesis by simp
    qed
  qed
  have "length (imageQueue ?s') = n" "concurrency dvd loop_i ?s'"
    "\<not> awaiting ?s' \<longrightarrow> suspended ?s' = {}"
    "suspended ?s' \<subseteq> {j. j < n \<and> in_slice (loop_i ?s') j}"
    using len dvd sub aw by auto
  with items cnt' show ?thesis
    unfolding run_inv_def by blast
qed

lemma run_inv_join:
  assumes inv: "run_inv n s" and aw: "awaiting s" and nobody: "suspended s = {}"
  shows "run_inv n (join s)"
proof -
  let ?q = "imageQueue s" and ?i = "loop_i s"
  from inv have len: "length ?q = n" and dvd: "concurrency dvd ?i"
    and cnt: "processedCount s = length (completed_items ?q)"
    by (simp_all add: run_inv_def)
  have items: "if j < ?i + concurrency then settled (?q ! j) else untouched (?q ! j)"
    if "j < n" for j
  proof -
    have "if j < ?i \<or> in_slice ?i j then settled (?q ! j) else untouched (?q ! j)"
      using inv aw nobody that by (simp add: run_inv_def)
    moreover have "j < ?i \<or> in_slice ?i j \<longleftrightarrow> j < ?i + concurrency"
      by (auto simp: in_slice_def)
    ultimately show ?thesis by simp
  qed
  show ?thesis
    unfolding run_inv_def
    using len dvd nobody items cnt by simp
qed

lemma run_inv_step:
  assumes "step rt s s'" and "run_inv n s"
  shows "run_inv n s'"
  using assms
proof (induction rule: step.induct)
  case (step_dispatch s)
  then show ?case by (simp add: run_inv_dispatch)
next
  case (step_resume j s it incremented)
  then show ?case by (simp add: run_inv_resume)
next
  case (step_join s)
  then show ?case by (simp add: run_inv_join)
qed

lemma run_inv_reachable:
  assumes "reachable rt s0 s" and "\<forall>it \<in> set (imageQueue s0). untouched it"
    and "processedCount s0 = 0"
  shows "run_inv (length (imageQueue s0)) s"
proof -
  from assms(1) have "(step rt)\<^sup>*\<^sup>* (start s0) s"
    by (simp add: reachable_def)
  then show ?thesis
  proof (induction rule: rtranclp_induct)
    case base
    show ?case by (rule run_inv_start [OF assms(2,3)])
  next
    case (step s s')
    from run_inv_step [OF step.hyps(2) step.IH] show ?case .
  qed
qed

lemma entered_untouched:
  assumes "new_batch s0" and "snd (preload rt (imageQueue s0)) = []"
  shows "(\<forall>it \<in> set (imageQueue (entered rt s0)). untouched it)
       \<and> processedCount (entered rt s0) = 0
       \<and> length (imageQueue (entered rt s0)) = length (imageQueue s0)"
proof -
  from assms(1) have f: "list_all fresh (imageQueue s0)" and c: "processedCount s0 = 0"
    by (simp_all add: new_batch_def)
  from preload_untouched [OF assms(2) f] c show ?thesis
    by (auto simp: entered_def in_set_conv_nth)
qed

lemma processing_in_chunk:
  assumes "run_inv n s" and "j < n" and "status (imageQueue s ! j) = Processing"
  shows "j \<in> suspended s"
proof (rule ccontr)
  assume "j \<notin> suspended s"
  with assms(1,2) have "settled (imageQueue s ! j) \<or> untouched (imageQueue s ! j)"
    by (auto simp: run_inv_def split: if_splits)
  with assms(3) show False
    by (auto simp: settled_def untouched_def fresh_def)
qed

lemma processing_count_bound:
  assumes "run_inv n s"
  shows "processing_count (imageQueue s) \<le> concurrency"
proof -
  let ?q = "imageQueue s"
  have len: "length ?q = n"
    using assms by (simp add: run_inv_def)
  have "{j. j < length ?q \<and> status (?q ! j) = Processing} \<subseteq> suspended s"
    using processing_in_chunk [OF assms] by (auto simp: len)
  also have "suspended s \<subseteq> {loop_i s ..< loop_i s + concurrency}"
    using assms by (auto simp: run_inv_def in_slice_def)
  finally have "card {j. j < length ?q \<and> status (?q ! j) = Processing}
      \<le> card {loop_i s ..< loop_i s + concurrency}"
    by (intro card_mono) simp_all
  then show ?thesis
    by (simp add: processing_count_def length_filter_conv_card)
qed



text \<open>Each job of the loop depends on its own item only.\<close>

lemma job_at_isolated:
  assumes "job_at rt k s = Some s'" and "k < length (imageQueue s)"
  shows "\<forall>j < length (imageQueue s).
           if j = k then \<exists>incremented. job rt (imageQueue s ! j) = Some (imageQueue s' ! j, incremented)
           else imageQueue s' ! j = imageQueue s ! j"
  using assms by (auto simp: job_at_def split: option.splits prod.splits)

lemma jobs_at_isolated:
  assumes "jobs_at rt [k ..< m] s = Some s'" and "m \<le> length (imageQueue s)"
  shows "\<forall>j < length (imageQueue s).
           if k \<le> j \<and> j < m
           then \<exists>incremented. job rt (imageQueue s ! j) = Some (imageQueue s' ! j, incremented)
           else imageQueue s' ! j = imageQueue s ! j"
  using assms
proof (induction "m - k" arbitrary: k s)
  case 0
  then show ?case by auto
next
  case (Suc d)
  then have km: "k < m" by simp
  then have up: "[k ..< m] = k # [Suc k ..< m]"
    by (simp add: upt_rec)
  from Suc.prems(1) obtain s1 where
    1: "job_at rt k s = Some s1" and 2: "jobs_at rt [Suc k ..< m] s1 = Some s'"
    unfolding up by (auto split: option.splits)
  have kl: "k < length (imageQueue s)"
    using km Suc.prems(2) by simp
  have l1: "length (imageQueue s1) = length (imageQueue s)"
    using 1 by (rule job_at_length)
  have d: "d = m - Suc k"
    using Suc.hyps(2) by simp
  have m1: "m \<le> length (imageQueue s1)"
    using Suc.prems(2) l1 by simp
  note first = job_at_isolated [OF 1 kl]
  note rest = Suc.hyps(1) [OF d 2 m1, unfolded l1]
  show ?case
  proof (intro allI impI)
    fix j
    assume j: "j < length (imageQueue s)"
    show "if k \<le> j \<and> j < m
           then \<exists>incremented. job rt (imageQueue s ! j) = Some (imageQueue s' ! j, incremented)
           else imageQueue s' ! j = imageQueue s ! j"
    proof (cases "j = k")
      case True
      with first j rest km show ?thesis by auto
    next
      case False
      with first j have "imageQueue s1 ! j = imageQueue s ! j" by simp
      with rest j False show ?thesis by auto
    qed
  qed
qed

lemma queue_loop_isolated:
  assumes "queue_loop rt i s = Some s'"
  shows "\<forall>j < length (imageQueue s).
           if i \<le> j
           then \<exists>incremented. job rt (imageQueue s ! j) = Some (imageQueue s' ! j, incremented)
           else imageQueue s' ! j = imageQueue s ! j"
  using assms
proof (induction rt i s rule: queue_loop.induct)
  case (1 rt i s)
  let ?n = "length (imageQueue s)"
  show ?case
  proof (cases "i < ?n")
    case False
    with "1.prems" have "s' = s"
      by (simp add: queue_loop.simps)
    with False show ?thesis by simp
  next
    case True
    with "1.prems"(1) obtain s1 where
      a: "jobs_at rt (slice_indices i ?n) s = Some s1"
      and b: "queue_loop rt (i + concurrency) s1 = Some s'"
      by (subst (asm) queue_loop.simps) (auto split: option.splits)
    have len: "length (imageQueue s1) = ?n"
      using a by (rule jobs_at_length)
    let ?m = "min (i + concurrency) ?n"
    from a have "jobs_at rt [i ..< ?m] s = Some s1"
      by (simp add: slice_indices_def)
    from jobs_at_isolated [OF this] have chunk:
      "\<forall>j < ?n. if i \<le> j \<and> j < ?m
           then \<exists>incremented. job rt (imageQueue s ! j) = Some (imageQueue s1 ! j, incremented)
           else imageQueue s1 ! j = imageQueue s ! j"
      by simp
    note later = "1.IH" [OF True a b, unfolded len]
    show ?thesis
    proof (intro allI impI)
      fix j
      assume j: "j < ?n"
      show "if i \<le> j
           then \<exists>incremented. job rt (imageQueue s ! j) = Some (imageQueue s' ! j, incremented)
           else imageQueue s' ! j = imageQueue s ! j"
      proof (cases "i + concurrency \<le> j")
        case True
        with chunk j have "imageQueue s1 ! j = imageQueue s ! j" by simp
        with later j True show ?thesis by auto
      next
        case False
        with later j have "imageQueue s' ! j = imageQueue s1 ! j" by simp
        with chunk j False show ?thesis by auto
      qed
    qed
  qed
qed

lemma rel_inv_step:
  assumes st: "step rt s s'" and inv: "run_inv (length q0) s" and rel: "rel_inv rt q0 s"
    and u: "\<forall>it \<in> set q0. untouched it"
  shows "rel_inv rt q0 s'"
  using st
proof (cases rule: step.cases)
  case step_dispatch
  from inv step_dispatch(2) have nosusp: "suspended s = {}"
    by (simp add: run_inv_def)
  from inv have len: "length (imageQueue s) = length q0"
    by (simp add: run_inv_def)
  show ?thesis
    unfolding rel_inv_def
  proof (intro allI impI)
    fix j
    assume j: "j < length q0"
    from rel j nosusp step_dispatch(2)
    have old: "if j < loop_i s
        then \<exists>incremented. job rt (q0 ! j) = Some (imageQueue s ! j, incremented)
        else imageQueue s ! j = q0 ! j"
      by (simp add: rel_inv_def)
    from u j have p: "status (q0 ! j) = Pending"
      by (simp add: untouched_def fresh_def)
    show "if j \<in> suspended s' then imageQueue s' ! j = claim (q0 ! j)
        else if j < loop_i s' \<or> awaiting s' \<and> in_slice (loop_i s') j
          then \<exists>incremented. job rt (q0 ! j) = Some (imageQueue s' ! j, incremented)
          else imageQueue s' ! j = q0 ! j"
    proof (cases "in_slice (loop_i s) j")
      case True
      then have "\<not> j < loop_i s"
        by (simp add: in_slice_def)
      with old have "imageQueue s ! j = q0 ! j" by simp
      with True j p show ?thesis
        by (simp add: step_dispatch(1) dispatch_nth len)
    next
      case False
      with old j show ?thesis
        by (simp add: step_dispatch(1) dispatch_nth len)
    qed
  qed
next
  case (step_resume k it incremented)
  from inv have len: "length (imageQueue s) = length q0"
    and sub: "suspended s \<subseteq> {j. j < length q0 \<and> in_slice (loop_i s) j}"
    by (simp_all add: run_inv_def)
  from inv step_resume(2) have aw: "awaiting s"
    by (auto simp: run_inv_def)
  from sub step_resume(2) have k: "k < length q0" and ks: "in_slice (loop_i s) k"
    by auto
  from rel k step_resume(2) have "imageQueue s ! k = claim (q0 ! k)"
    by (simp add: rel_inv_def)
  moreover from u k have "status (q0 ! k) = Pending"
    by (simp add: untouched_def fresh_def)
  ultimately have jk: "job rt (q0 ! k) = Some (it, incremented)"
    using step_resume(3) by (simp add: job_pending)
  show ?thesis
    unfolding rel_inv_def
  proof (intro allI impI)
    fix j
    assume j: "j < length q0"
    from rel j
    have old: "if j \<in> suspended s then imageQueue s ! j = claim (q0 ! j)
        else if j < loop_i s \<or> awaiting s \<and> in_slice (loop_i s) j
          then \<exists>incremented. job rt (q0 ! j) = Some (imageQueue s ! j, incremented)
          else imageQueue s ! j = q0 ! j"
      by (simp add: rel_inv_def)
    show "if j \<in> suspended s' then imageQueue s' ! j = claim (q0 ! j)
        else if j < loop_i s' \<or> awaiting s' \<and> in_slice (loop_i s') j
          then \<exists>incremented. job rt (q0 ! j) = Some (imageQueue s' ! j, incremented)
          else imageQueue s' ! j = q0 ! j"
    proof (cases "j = k")
      case True
      with jk k ks aw len show ?thesis
        by (auto simp: step_resume(1))
    next
      case False
      with old show ?thesis
        by (simp add: step_resume(1))
    qed
  qed
next
  case step_join
  show ?thesis
    unfolding rel_inv_def
  proof (intro allI impI)
    fix j
    assume j: "j < length q0"
    from rel j step_join(2,3)
    have old: "if j < loop_i s \<or> in_slice (loop_i s) j
          then \<exists>incremented. job rt (q0 ! j) = Some (imageQueue s ! j, incremented)
          else imageQueue s ! j = q0 ! j"
      by (simp add: rel_inv_def)
    have "j < loop_i s \<or> in_slice (loop_i s) j \<longleftrightarrow> j < loop_i s + concurrency"
      by (auto simp: in_slice_def)
    with old step_join(3)
    show "if j \<in> suspended s' then imageQueue s' ! j = claim (q0 ! j)
        else if j < loop_i s' \<or> awaiting s' \<and> in_slice (loop_i s') j
          then \<exists>incremented. job rt (q0 ! j) = Some (imageQueue s' ! j, incremented)
          else imageQueue s' ! j = q0 ! j"
      by (simp add: step_join(1))
  qed
qed

lemma rel_inv_reachable:
  assumes "reachable rt s0 s" and u: "\<forall>it \<in> set (imageQueue s0). untouched it"
    and c: "processedCount s0 = 0"
  shows "rel_inv rt (imageQueue s0) s"
proof -
  from assms(1) have "(step rt)\<^sup>*\<^sup>* (start s0) s"
    by (simp add: reachable_def)
  then show ?thesis
  proof (induction rule: rtranclp_induct)
    case base
    show ?case by (simp add: rel_inv_def start_def)
  next
    case (step s s')
    from step.hyps(1) have "reachable rt s0 s"
      by (simp add: reachable_def)
    from run_inv_reachable [OF this u c] have "run_inv (length (imageQueue s0)) s" .
    from rel_inv_step [OF step.hyps(2) this step.IH u] show ?case .
  qed
qed

text \<open>
  Every run of the loop that comes to its end, in whatever order the jobs of a chunk
  finish, ends in the state that \<open>queue_loop\<close> computes.
\<close>

lemma run_ends_as_queue_loop:
  assumes r: "reachable rt s0 s" and u: "\<forall>it \<in> set (imageQueue s0). untouched it"
    and c: "processedCount s0 = 0"
    and idle: "\<not> awaiting s" and over: "length (imageQueue s) \<le> loop_i s"
  shows "queue_loop rt 0 s0
       = Some \<lparr>imageQueue = imageQueue s, processedCount = processedCount s\<rparr>"
proof -
  let ?init = "imageQueue s0" and ?q = "imageQueue s"
  from run_inv_reachable [OF r u c] have inv: "run_inv (length ?init) s" .
  then have len: "length ?q = length ?init"
    and cnt: "processedCount s = length (completed_items ?q)"
    by (simp_all add: run_inv_def)
  from inv idle have nosusp: "suspended s = {}"
    by (simp add: run_inv_def)
  from rel_inv_reachable [OF r u c] nosusp over
  have jobs: "\<exists>incremented. job rt (?init ! j) = Some (?q ! j, incremented)"
    if "j < length ?init" for j
    using that by (auto simp: rel_inv_def len split: if_splits)
  have "responsive rt it" if "it \<in> set ?init" for it
  proof -
    from that obtain j where j: "j < length ?init" and it: "it = ?init ! j"
      by (auto simp: in_set_conv_nth)
    from u that have "status it = Pending"
      by (simp add: untouched_def fresh_def)
    with jobs [OF j] show ?thesis
      unfolding it
      by (auto simp: responsive_def job_def run_job_def set_status_def split: option.splits)
  qed
  then have "\<forall>it \<in> set ?init. responsive rt it" by blast
  from queue_loop_total [OF this, of 0] obtain s' where run: "queue_loop rt 0 s0 = Some s'" ..
  have ci: "chunk_inv 0 s0"
  proof -
    have "\<forall>it \<in> set ?init. status it \<noteq> Completed"
      using u by (auto simp: untouched_def fresh_def)
    then have "completed_items ?init = []"
      by (simp add: completed_items_def filter_empty_conv)
    with u c show ?thesis
      by (simp add: chunk_inv_def)
  qed
  from queue_loop_chunk_inv [OF run ci]
  have len': "length (imageQueue s') = length ?init"
    and cnt': "processedCount s' = length (completed_items (imageQueue s'))"
    by simp_all
  have "imageQueue s' ! j = ?q ! j" if "j < length ?init" for j
    using queue_loop_isolated [OF run] jobs [OF that] that by auto
  then have q: "imageQueue s' = ?q"
    using len len' by (auto intro: nth_equalityI)
  with cnt cnt' have "s' = \<lparr>imageQueue = ?q, processedCount = processedCount s\<rparr>"
    by simp
  with run show ?thesis by simp
qed

text \<open>
  A failure of the engine on one frame of a video makes the job of that video fail: the
  item ends failed, without an output, and nothing is counted.
\<close>

lemma job_video_transform_error:
  assumes "isVideo it" and "status it = Pending"
    and "ready rt (ifile it)"
    and "good_prefix rt (ifile it) (recorder_of rt (ifile it)) (duration (mediaOf rt (ifile it)))
           (frameInterval_of (mediaOf rt (ifile it))) (Fin 0) n"
    and "sample (Fin 0) (frameInterval_of (mediaOf rt (ifile it))) n = Fin x"
    and "nle (Fin x) (duration (mediaOf rt (ifile it)))"
    and "\<not> errorAt (recorder_of rt (ifile it)) x"
    and "onSeek (mediaOf rt (ifile it)) x = Seeked"
    and "engineFrame rt (ifile it) x = Inl e"
  shows "job rt it = Some (set_status Error (set_status Processing it), False)"
  using video_transform_error [OF assms(3-9)] assms(1,2)
  by (simp add: job_def run_job_def set_status_def)

text \<open>New batches and single files.\<close>

lemma new_item_fresh: "fresh (new_item now index f)"
  by (simp add: fresh_def new_item_def)

lemma handleFiles_batch:
  assumes "2 \<le> length validFiles"
  shows "handleFiles rt now validFiles s =
           processQueue rt
             \<lparr>imageQueue = map (\<lambda>(index, f). new_item now index f) (enumerate 0 validFiles),
              processedCount = 0\<rparr>
       \<and> new_batch
             \<lparr>imageQueue = map (\<lambda>(index, f). new_item now index f) (enumerate 0 validFiles),
              processedCount = 0\<rparr>"
proof -
  have "list_all fresh (map (\<lambda>(index, f). new_item now index f) (enumerate 0 validFiles))"
    by (auto simp: list_all_iff new_item_fresh)
  moreover have "validFiles \<noteq> []" "length validFiles \<noteq> 1"
    using assms by auto
  ultimately show ?thesis
    by (simp add: handleFiles_def new_batch_def Let_def)
qed


section \<open>Example inputs\<close>

text \<open>An item as \<^verbatim>\<open>handleFiles\<close> creates it for a file of the given name and kind.\<close>

definition pending_item :: "nat \<Rightarrow> string \<Rightarrow> bool \<Rightarrow> item" where
  "pending_item n nm video =
     \<lparr>ident = n,
      ifile = \<lparr>fname = nm, ftype = (if video then ''video/mp4'' else ''image/png''),
               content = n\<rparr>,
      name = nm, isVideo = video, status = Pending, originalImg = None,
      processedBlob = None, history = [Pending]\<rparr>"

text \<open>The same item after a successful job, after a failed one.\<close>

definition completed_item :: "nat \<Rightarrow> string \<Rightarrow> bool \<Rightarrow> item" where
  "completed_item n nm video =
     (pending_item n nm video)
       \<lparr>status := Completed,
        processedBlob := Some \<lparr>btype = (if video then ''video/webm'' else ''image/png''),
                               bdata = [n]\<rparr>,
        history := [Pending, Processing, Completed]\<rparr>"

definition failed_item :: "nat \<Rightarrow> string \<Rightarrow> bool \<Rightarrow> item" where
  "failed_item n nm video =
     (pending_item n nm video)\<lparr>status := Error, history := [Pending, Processing, Error]\<rparr>"

text \<open>
  A video of duration \<open>D\<close> whose frame rate is detected as \<open>F\<close>, in which every seek
  completes, and a browser with a recorder that supports WebM only and starts and stops
  without error, an engine that returns the content number of the file as every frame,
  and images that load.
\<close>

definition example_media :: "rat \<Rightarrow> rat \<Rightarrow> media" where
  "example_media D F =
     \<lparr>onLoad = LoadedMetadata, duration = Fin D, detectedFPS = Fin F, onSeek = (\<lambda>t. Seeked)\<rparr>"

definition example_runtime :: "media \<Rightarrow> runtime" where
  "example_runtime m =
     \<lparr>mediaRecorderDefined = True,
      isTypeSupported = (\<lambda>ty. ty = ''video/webm''),
      defaultMimeType = ''video/x-matroska'',
      recorderOf = (\<lambda>ty f. \<lparr>startThrows = False, errorAt = (\<lambda>t. False), onStop = Stopped\<rparr>),
      mediaOf = (\<lambda>f. m),
      engineFrame = (\<lambda>f t. Inr (content f)),
      loadImage = (\<lambda>f. Inr (content f)),
      engineImage = (\<lambda>img. case img of None \<Rightarrow> Inl EngineError | Some i \<Rightarrow> Inr i),
      toBlob = (\<lambda>c. Some \<lparr>btype = ''image/png'', bdata = [c]\<rparr>),
      checkOriginal = (\<lambda>f. True)\<rparr>"

definition clip :: srcfile where
  "clip = \<lparr>fname = ''clip.mp4'', ftype = ''video/mp4'', content = 7\<rparr>"



lemmas pipeline_eval = number_eval
  removeWatermarkFromVideo_def frame_loop.simps pstate0_def progress_of_def
  getSupportedMimeType_def mime_types_def recorder_mimeType_def constructor_throws_def
  example_media_def example_runtime_def

text \<open>An example video in which the seek to the time \<open>t0\<close> makes the element fire its error event.\<close>

definition broken_at :: "rat \<Rightarrow> runtime" where
  "broken_at t0 =
     example_runtime
       ((example_media 1 4)\<lparr>onSeek := (\<lambda>t. if t = t0 then SeekVideoError else Seeked)\<rparr>)"

text \<open>The same video when no event answers the seek to the time \<open>t0\<close>.\<close>

definition stalled_at :: "rat \<Rightarrow> runtime" where
  "stalled_at t0 =
     example_runtime
       ((example_media 1 4)\<lparr>onSeek := (\<lambda>t. if t = t0 then SeekNoEvent else Seeked)\<rparr>)"

text \<open>
  A batch of five pictures whose content numbers are 1 to 5; an engine that fails on the
  pictures 2 and 4; an image loader that rejects the files 2 and 4.
\<close>

definition five_images :: sched where
  "five_images =
     \<lparr>imageQueue = [pending_item 1 ''a.png'' False, pending_item 2 ''b.png'' False,
                    pending_item 3 ''c.png'' False, pending_item 4 ''d.png'' False,
                    pending_item 5 ''e.png'' False],
      processedCount = 0\<rparr>"

definition failing_transform_runtime :: runtime where
  "failing_transform_runtime =
     (example_runtime (example_media 1 4))
       \<lparr>engineImage := (\<lambda>img. case img of
                          None \<Rightarrow> Inl EngineError
                        | Some i \<Rightarrow> if i = 2 \<or> i = 4 then Inl EngineError else Inr i)\<rparr>"

definition failing_decode_runtime :: runtime where
  "failing_decode_runtime =
     (example_runtime (example_media 1 4))
       \<lparr>loadImage := (\<lambda>f. if content f = 2 \<or> content f = 4 then Inl LoadImageError
                           else Inr (content f))\<rparr>"

lemmas scheduler_eval =
  processQueue_def preload_def preload_item_def List.map_filter_def queue_loop.simps
  slice_indices_def concurrency_def job_at_def job_def run_job_def set_status_def
  pending_item_def example_runtime_def Let_def


lemma five_images_failing_decode:
  "map_option (\<lambda>(e, s). (e, map status (imageQueue s), processedCount s))
     (processQueue failing_decode_runtime five_images)
   = Some (Some LoadImageError, [Pending, Pending, Pending, Pending, Pending], 0)"
  by (simp add: scheduler_eval five_images_def failing_decode_runtime_def)

lemma five_images_entered:
  "new_batch five_images
   \<and> snd (preload (example_runtime (example_media 1 4)) (imageQueue five_images)) = []"
  by (simp add: new_batch_def five_images_def fresh_def pending_item_def preload_def
      preload_item_def List.map_filter_def example_runtime_def)


text \<open>One picture, uploaded alone, and the state before any upload.\<close>

definition photo :: srcfile where
  "photo = \<lparr>fname = ''photo.PNG'', ftype = ''image/png'', content = 1\<rparr>"

definition no_files :: sched where
  "no_files = \<lparr>imageQueue = [], processedCount = 0\<rparr>"

text \<open>
  Two uploads of videos: two files at the time 1000, six files at the time 2000.  In the
  run below the second upload arrives while the two videos of the first are processed.
\<close>

definition video_file :: "nat \<Rightarrow> srcfile" where
  "video_file n = \<lparr>fname = ''v.mp4'', ftype = ''video/mp4'', content = n\<rparr>"

definition first_upload :: "srcfile list" where
  "first_upload = [video_file 1, video_file 2]"

definition second_upload :: "srcfile list" where
  "second_upload =
     [video_file 3, video_file 4, video_file 5, video_file 6, video_file 7, video_file 8]"

definition overlapping_uploads :: "event list" where
  "overlapping_uploads =
     [Upload 1000 first_upload, Start 0,
      Upload 2000 second_upload, Start 1,
      Resume 0 0, Resume 0 1, Continue 0]"

lemmas app_eval = app_upload_def app_start_def enter_chunk_def app_resume_def app_continue_def
  app0_def queue_items_def video_file_def first_upload_def second_upload_def new_item_def
  is_video_def app_preload_item_def concurrency_def set_status_def Let_def has_card_def
  run_job_def run_orphan_def overlapping_uploads_def processing_count_def

text \<open>
  The two videos of the first upload lose their cards to the second upload: their jobs
  produce the output, set Completed, and fail at line 363.
\<close>

lemma replaced_videos_complete_then_fail:
  "map_option (\<lambda>a. map history (take 2 (store a)))
     (app_run (example_runtime (example_media 1 4)) overlapping_uploads app0)
   = Some [[Pending, Processing, Completed, Error], [Pending, Processing, Completed, Error]]"
  by (simp add: app_eval pipeline_eval upt_rec)

text \<open>
  With its card present the preload callback is the one of \<^verbatim>\<open>processQueue\<close> above, and
  an upload of the five pictures that no other upload disturbs ends as \<^verbatim>\<open>handleFiles\<close>
  says, whatever the order in which the jobs of a chunk finish.
\<close>

lemma app_preload_item_present:
  "app_preload_item rt True it =
     (case preload_item rt it of Inl e \<Rightarrow> (it, Some e) | Inr it' \<Rightarrow> (it', None))"
  by (simp add: app_preload_item_def preload_item_def split: sum.splits)

definition undisturbed_upload :: "event list" where
  "undisturbed_upload =
     [Upload 1000 (map ifile (imageQueue five_images)), Start 0,
      Resume 0 2, Resume 0 0, Resume 0 1, Continue 0,
      Resume 0 4, Resume 0 3, Continue 0]"

lemma undisturbed_upload_agrees:
  "map_option (\<lambda>a. (map status (queue_items a), counter a, map run_phase (runs a)))
     (app_run failing_transform_runtime undisturbed_upload app0)
   = Some ([Completed, Error, Completed, Error, Completed], 3, [Ended])
   \<and> map_option (\<lambda>(e, s). (map status (imageQueue s), processedCount s))
       (handleFiles failing_transform_runtime 1000 (map ifile (imageQueue five_images)) no_files)
     = Some ([Completed, Error, Completed, Error, Completed], 3)"
  by (simp add: app_eval undisturbed_upload_def five_images_def pending_item_def
      failing_transform_runtime_def example_runtime_def upt_rec ends_with_def lower_def
      handleFiles_def scheduler_eval no_files_def enumerate_eq_zip)

section \<open>Claims about packaging\<close>

text \<open>
  C10.  If no job of the queue is in the Completed state when packaging is requested,
  \<^verbatim>\<open>downloadAll\<close> returns at line 406: no archive object is created and nothing is
  produced.
\<close>

theorem downloadAll_nothing_completed:
  "\<forall>it \<in> set q. status it \<noteq> Completed \<Longrightarrow> downloadAll q = None"
proof -
  assume "\<forall>it \<in> set q. status it \<noteq> Completed"
  then have "completed_items q = []"
    by (simp add: completed_items_def filter_empty_conv)
  then show ?thesis
    by (simp add: downloadAll_def)
qed

theorem downloadAll_nothing_completed_witness:
  "map status [failed_item 1 ''a.png'' False, pending_item 2 ''b.mp4'' True] = [Error, Pending]
   \<and> downloadAll [failed_item 1 ''a.png'' False, pending_item 2 ''b.mp4'' True] = None"
proof -
  have h: "\<forall>it \<in> set [failed_item 1 ''a.png'' False, pending_item 2 ''b.mp4'' True].
             status it \<noteq> Completed"
    by (simp add: failed_item_def pending_item_def)
  have "map status [failed_item 1 ''a.png'' False, pending_item 2 ''b.mp4'' True]
          = [Error, Pending]"
    by (simp add: failed_item_def pending_item_def)
  with downloadAll_nothing_completed [OF h] show ?thesis by simp
qed

text \<open>
  C6, as the code has it.  When at least one job is Completed, \<^verbatim>\<open>downloadAll\<close> produces
  an archive.  Its entry names are exactly the names generated from the Completed jobs,
  each the prefix \<^verbatim>\<open>unwatermarked_\<close>, the base name of the file, a dot and \<^verbatim>\<open>webm\<close> for
  a video or \<^verbatim>\<open>png\<close> for an image, where the base name is the name without its last
  extension, and the whole name when it has no dot; every entry holds the output of a
  Completed job with that generated name; jobs in any other state contribute nothing.
  The archive has one entry per Completed job, in queue order, when the generated names
  are pairwise distinct: Completed jobs with the same generated name share one entry.
\<close>

theorem downloadAll_entries:
  assumes "\<exists>it \<in> set q. status it = Completed"
  shows "\<exists>z. downloadAll q = Some z
       \<and> set (map fst z) = filename ` {it \<in> set q. status it = Completed}
       \<and> distinct (map fst z)
       \<and> (\<forall>(n, d) \<in> set z. \<exists>it \<in> set q.
             status it = Completed \<and> n = filename it \<and> d = processedBlob it)
       \<and> (\<forall>it \<in> set q. \<forall>base ext.
             name it = base @ ''.'' @ ext \<and> ext \<noteq> [] \<and> CHR ''.'' \<notin> set ext \<longrightarrow>
             filename it =
               ''unwatermarked_'' @ base @ ''.'' @ (if isVideo it then ''webm'' else ''png''))
       \<and> (\<forall>it \<in> set q. CHR ''.'' \<notin> set (name it) \<longrightarrow>
             filename it =
               ''unwatermarked_'' @ name it @ ''.'' @ (if isVideo it then ''webm'' else ''png''))
       \<and> (distinct (map filename (completed_items q)) \<longrightarrow>
             z = map (\<lambda>it. (filename it, processedBlob it)) (completed_items q)
             \<and> length z = length (completed_items q))"
proof -
  let ?c = "completed_items q"
  define z where "z = foldl add_entry [] ?c"
  have "?c \<noteq> []"
    using assms by (auto simp: completed_items_def filter_empty_conv)
  then have run: "downloadAll q = Some z"
    by (simp add: downloadAll_def Let_def z_def)
  have c: "set ?c = {it \<in> set q. status it = Completed}"
    by (auto simp: completed_items_def)
  have names: "set (map fst z) = filename ` {it \<in> set q. status it = Completed}"
    using foldl_add_entry_keys [of "[]" ?c] by (simp add: z_def c)
  have dist: "distinct (map fst z)"
    unfolding z_def by (rule foldl_add_entry_distinct) simp
  have "set z \<subseteq> (\<lambda>it. (filename it, processedBlob it)) ` set ?c"
    using foldl_add_entry_subset [of "[]" ?c] by (simp add: z_def)
  then have data: "\<forall>(n, d) \<in> set z. \<exists>it \<in> set q.
      status it = Completed \<and> n = filename it \<and> d = processedBlob it"
    unfolding c by auto
  have naming: "\<forall>it \<in> set q. \<forall>base ext.
      name it = base @ ''.'' @ ext \<and> ext \<noteq> [] \<and> CHR ''.'' \<notin> set ext \<longrightarrow>
      filename it = ''unwatermarked_'' @ base @ ''.'' @ (if isVideo it then ''webm'' else ''png'')"
    using strip_ext_match by (simp add: filename_def ext_of_def)
  have plain: "\<forall>it \<in> set q. CHR ''.'' \<notin> set (name it) \<longrightarrow>
      filename it =
        ''unwatermarked_'' @ name it @ ''.'' @ (if isVideo it then ''webm'' else ''png'')"
    using strip_ext_no_match by (simp add: filename_def ext_of_def)
  have one_each: "distinct (map filename ?c) \<longrightarrow>
      z = map (\<lambda>it. (filename it, processedBlob it)) ?c \<and> length z = length ?c"
  proof
    assume "distinct (map filename ?c)"
    then have "foldl add_entry [] ?c = [] @ map (\<lambda>it. (filename it, processedBlob it)) ?c"
      by (intro foldl_add_entry_fresh) simp_all
    then show "z = map (\<lambda>it. (filename it, processedBlob it)) ?c \<and> length z = length ?c"
      by (simp add: z_def)
  qed
  from run names dist data naming plain one_each show ?thesis
    by (intro exI [of _ z] conjI)
qed

text \<open>
  A queue with two Completed jobs among four, and a queue whose only job is Completed.
\<close>

definition packaging_queue :: "item list" where
  "packaging_queue =
     [completed_item 6 ''photo.jpg'' False, failed_item 2 ''broken.png'' False,
      completed_item 3 ''clip.mov'' True, pending_item 4 ''late.webp'' False]"

definition single_queue :: "item list" where
  "single_queue = [completed_item 5 ''holiday.2024.jpeg'' False]"

theorem downloadAll_entries_witness:
  "downloadAll packaging_queue =
     Some [(''unwatermarked_photo.png'', Some \<lparr>btype = ''image/png'', bdata = [6]\<rparr>),
           (''unwatermarked_clip.webm'', Some \<lparr>btype = ''video/webm'', bdata = [3]\<rparr>)]
   \<and> downloadAll single_queue =
     Some [(''unwatermarked_holiday.2024.png'', Some \<lparr>btype = ''image/png'', bdata = [5]\<rparr>)]"
proof -
  have c2: "completed_items packaging_queue =
      [completed_item 6 ''photo.jpg'' False, completed_item 3 ''clip.mov'' True]"
    by (simp add: completed_items_def packaging_queue_def completed_item_def
        failed_item_def pending_item_def)
  have c1: "completed_items single_queue = [completed_item 5 ''holiday.2024.jpeg'' False]"
    by (simp add: completed_items_def single_queue_def completed_item_def pending_item_def)
  have f: "filename (completed_item 6 ''photo.jpg'' False) = ''unwatermarked_photo.png''"
    "filename (completed_item 3 ''clip.mov'' True) = ''unwatermarked_clip.webm''"
    "filename (completed_item 5 ''holiday.2024.jpeg'' False) = ''unwatermarked_holiday.2024.png''"
    by (simp_all add: completed_item_def pending_item_def filename_def strip_ext_def ext_of_def)
  have b: "processedBlob (completed_item 6 ''photo.jpg'' False)
             = Some \<lparr>btype = ''image/png'', bdata = [6]\<rparr>"
    "processedBlob (completed_item 3 ''clip.mov'' True)
             = Some \<lparr>btype = ''video/webm'', bdata = [3]\<rparr>"
    "processedBlob (completed_item 5 ''holiday.2024.jpeg'' False)
             = Some \<lparr>btype = ''image/png'', bdata = [5]\<rparr>"
    by (simp_all add: completed_item_def pending_item_def)
  have h2: "\<exists>it \<in> set packaging_queue. status it = Completed"
    by (simp add: packaging_queue_def completed_item_def)
  have h1: "\<exists>it \<in> set single_queue. status it = Completed"
    by (simp add: single_queue_def completed_item_def)
  have d2: "distinct (map filename (completed_items packaging_queue))"
    by (simp add: c2 f)
  have d1: "distinct (map filename (completed_items single_queue))"
    by (simp add: c1)
  from downloadAll_entries [OF h2] d2 have
    "downloadAll packaging_queue =
       Some (map (\<lambda>it. (filename it, processedBlob it)) (completed_items packaging_queue))"
    by auto
  then have two: "downloadAll packaging_queue =
     Some [(''unwatermarked_photo.png'', Some \<lparr>btype = ''image/png'', bdata = [6]\<rparr>),
           (''unwatermarked_clip.webm'', Some \<lparr>btype = ''video/webm'', bdata = [3]\<rparr>)]"
    by (simp add: c2 f b)
  from downloadAll_entries [OF h1] d1 have
    "downloadAll single_queue =
       Some (map (\<lambda>it. (filename it, processedBlob it)) (completed_items single_queue))"
    by auto
  then have one: "downloadAll single_queue =
     Some [(''unwatermarked_holiday.2024.png'', Some \<lparr>btype = ''image/png'', bdata = [5]\<rparr>)]"
    by (simp add: c1 f b)
  from two one show ?thesis ..
qed

text \<open>
  C6 as stated fails: the pictures \<^verbatim>\<open>a.png\<close> and \<^verbatim>\<open>a.jpg\<close>, both Completed, generate
  the same entry name, and the archive has one entry for the two jobs.
\<close>

definition colliding_queue :: "item list" where
  "colliding_queue = [completed_item 1 ''a.png'' False, completed_item 2 ''a.jpg'' False]"

theorem downloadAll_colliding_names:
  "length (completed_items colliding_queue) = 2
   \<and> downloadAll colliding_queue =
       Some [(''unwatermarked_a.png'', Some \<lparr>btype = ''image/png'', bdata = [2]\<rparr>)]"
  by (simp add: downloadAll_def completed_items_def colliding_queue_def completed_item_def
      pending_item_def add_entry_def filename_def strip_ext_def ext_of_def)

section \<open>Claims about the video pipeline\<close>




text \<open>
  C2, as the code has it.  For every successful video job with a finite duration \<open>D > 0\<close>,
  the progress emitted after the frame sampled at time \<open>t\<close> is
  \<^verbatim>\<open>Math.min(100, Math.round((t / D) * 100))\<close>, where the quotient and the product are the
  rounded operations on binary64 numbers and \<^verbatim>\<open>Math.round\<close> yields the nearest
  integer, not the floor; one more call with exactly 100 follows the loop; the emitted
  values are integers from 0 to 100, the sequence is non-decreasing and its last element
  is 100.  The rounding of the quotient and of the product shows: at \<open>D = 10\<close> and
  \<open>t = 5.75\<close> the product is just below 57.5 and the progress is 57, where the exact
  value 57.5 would give 58.
\<close>

theorem video_progress:
  assumes ok: "removeWatermarkFromVideo rt f = Some (Inr b, s)"
    and dur: "duration (mediaOf rt f) = Fin D" and D: "0 < D"
  shows "emitted s =
           map (\<lambda>t. nmin (Fin 100) (nround (fmul (fdiv (Fin t) (Fin D)) (Fin 100)))) (seeks s)
           @ [Fin 100]
       \<and> (\<exists>ps. emitted s = map (\<lambda>p. Fin (of_int p)) ps \<and> sorted ps \<and> last ps = 100
                \<and> (\<forall>p \<in> set ps. 0 \<le> p \<and> p \<le> 100))"
proof -
  let ?fi = "frameInterval_of (mediaOf rt f)"
  from video_success [OF ok] obtain n where
    g: "good_prefix rt f (recorder_of rt f) (Fin D) ?fi (Fin 0) n"
    and e: "\<not> nle (sample (Fin 0) ?fi n) (Fin D)"
    and s: "s = finished (advance rt f (Fin D) ?fi (Fin 0) n recording)"
    unfolding dur by blast
  define x where "x = (\<lambda>i. fin (sample (Fin 0) ?fi i))"
  from samples_sorted [OF g e] D
  have smp: "sample (Fin 0) ?fi i = Fin (x i) \<and> 0 \<le> x i \<and> x i \<le> D
      \<and> (\<forall>j<i. x j \<le> x i)" if "i < n" for i
    using that unfolding x_def by force
  have sk: "seeks s = map x [0..<n]"
    by (simp add: s finished_def x_def)
  have em: "emitted s = map (\<lambda>i. progress_of (Fin (x i)) (Fin D)) [0..<n] @ [Fin 100]"
    using smp by (simp add: s finished_def)
  have first: "emitted s =
      map (\<lambda>t. nmin (Fin 100) (nround (fmul (fdiv (Fin t) (Fin D)) (Fin 100)))) (seeks s)
      @ [Fin 100]"
    by (simp add: em sk comp_def progress_of_def)
  define g where "g = (\<lambda>i. pct (x i) D)"
  have pr: "progress_of (Fin (x i)) (Fin D) = Fin (of_int (g i)) \<and> 0 \<le> g i \<and> g i \<le> 100"
    if "i < n" for i
    using progress_of_within [of "x i" D] smp [OF that] D by (simp add: g_def)
  have mono: "g i \<le> g j" if "i \<le> j" "j < n" for i j
  proof (cases "i = j")
    case False
    with that have "i < j" by simp
    with smp [OF that(2)] have "x i \<le> x j" by simp
    moreover from that have "i < n" by simp
    with smp have "0 \<le> x i" by simp
    ultimately show ?thesis
      unfolding g_def using D by (intro pct_mono)
  qed simp
  have "sorted (map g [0..<n])"
    by (auto simp: sorted_iff_nth_mono intro: mono)
  then have "sorted (map g [0..<n] @ [100])"
    using pr by (auto simp: sorted_append)
  moreover have "emitted s = map (\<lambda>p. Fin (of_int p)) (map g [0..<n] @ [100])"
    using pr by (simp add: em)
  moreover have "last (map g [0..<n] @ [100]) = 100"
    by simp
  moreover have "\<forall>p \<in> set (map g [0..<n] @ [100]). 0 \<le> p \<and> p \<le> 100"
    using pr by auto
  ultimately have "\<exists>ps. emitted s = map (\<lambda>p. Fin (of_int p)) ps \<and> sorted ps \<and> last ps = 100
      \<and> (\<forall>p \<in> set ps. 0 \<le> p \<and> p \<le> 100)"
    by blast
  with first show ?thesis ..
qed

lemma progress_rounds_the_double:
  "progress_of (Fin (23 / 4)) (Fin 10) = Fin 57 \<and> round ((23 / 4 :: rat) / 10 * 100) = 58"
  by (simp add: progress_of_def number_eval round_def)

theorem video_progress_witness:
  "removeWatermarkFromVideo (example_runtime (example_media 1 8)) clip =
     Some (Inr \<lparr>btype = ''video/webm'', bdata = [7, 7, 7, 7, 7, 7, 7, 7, 7]\<rparr>,
           \<lparr>urlCreated = True, urlRevoked = True, recorderState = Inactive,
            seeks = [0, 1 / 8, 1 / 4, 3 / 8, 1 / 2, 5 / 8, 3 / 4, 7 / 8, 1],
            drawn = [7, 7, 7, 7, 7, 7, 7, 7, 7],
            emitted = [Fin 0, Fin 13, Fin 25, Fin 38, Fin 50, Fin 63, Fin 75, Fin 88,
                       Fin 100, Fin 100]\<rparr>)
   \<and> (\<exists>ps. [Fin 0, Fin 13, Fin 25, Fin 38, Fin 50, Fin 63, Fin 75, Fin 88, Fin 100, Fin 100]
              = map (\<lambda>p. Fin (of_int p)) ps \<and> sorted ps \<and> last ps = 100
              \<and> (\<forall>p \<in> set ps. 0 \<le> p \<and> p \<le> 100))"
proof -
  have run: "removeWatermarkFromVideo (example_runtime (example_media 1 8)) clip =
     Some (Inr \<lparr>btype = ''video/webm'', bdata = [7, 7, 7, 7, 7, 7, 7, 7, 7]\<rparr>,
           \<lparr>urlCreated = True, urlRevoked = True, recorderState = Inactive,
            seeks = [0, 1 / 8, 1 / 4, 3 / 8, 1 / 2, 5 / 8, 3 / 4, 7 / 8, 1],
            drawn = [7, 7, 7, 7, 7, 7, 7, 7, 7],
            emitted = [Fin 0, Fin 13, Fin 25, Fin 38, Fin 50, Fin 63, Fin 75, Fin 88,
                       Fin 100, Fin 100]\<rparr>)"
    by (simp add: pipeline_eval clip_def)
  have d: "duration (mediaOf (example_runtime (example_media 1 8)) clip) = Fin 1"
    by (simp add: example_runtime_def example_media_def)
  have pos: "0 < (1::rat)"
    by simp
  from video_progress [OF run d pos, THEN conjunct2] have
    "\<exists>ps. [Fin 0, Fin 13, Fin 25, Fin 38, Fin 50, Fin 63, Fin 75, Fin 88, Fin 100, Fin 100]
              = map (\<lambda>p. Fin (of_int p)) ps \<and> sorted ps \<and> last ps = 100
              \<and> (\<forall>p \<in> set ps. 0 \<le> p \<and> p \<le> 100)"
    by simp
  with run show ?thesis ..
qed

text \<open>
  C2 as stated fails: for a video of one second sampled at 8 frames per second, the
  progress after the frame at \<open>t = 1/8\<close> is 13, and the floor of \<open>t / D * 100 = 12.5\<close> is 12.
\<close>

theorem progress_is_rounded_not_floored:
  "map_option (\<lambda>(r, s). (seeks s ! 1, emitted s ! 1))
     (removeWatermarkFromVideo (example_runtime (example_media 1 8)) clip)
     = Some (1 / 8, Fin 13)
   \<and> \<lfloor>(1 / 8 :: rat) / 1 * 100\<rfloor> = 12"
  by (simp add: pipeline_eval clip_def)

text \<open>
  C3.  The loop adds the interval to \<^verbatim>\<open>currentTime\<close> in every pass (line 75), and every
  sum is rounded; no sample is computed from an index.  For a video of one second at 25
  frames per second the 25th sum lies above 1: the loop ends after 25 samples, the last
  at 0.9600000000000003, where 26 samples with the last at the duration are claimed.
  The loop condition admits the time \<open>D\<close> and line 76 takes the minimum of the time and
  \<open>D\<close>, but that minimum is always the time itself, and no pass is made for a time
  beyond \<open>D\<close>: a video of 2.5 seconds at one frame per second is sampled at 0, 1 and 2.
  The last sample is at \<open>D\<close> only when the rounded sums reach \<open>D\<close> exactly, as they do
  for one second at 4 frames per second.
\<close>

theorem accumulated_time_drifts:
  "map_option (\<lambda>(r, s). (length (seeks s), last (seeks s), length (bdata (projr r))))
     (removeWatermarkFromVideo (example_runtime (example_media 1 25)) clip)
     = Some (25, 8646911284551355 / 9007199254740992, 25)
   \<and> map_option (\<lambda>(r, s). seeks s)
       (removeWatermarkFromVideo (example_runtime (example_media (5 / 2) 1)) clip)
     = Some [0, 1, 2]
   \<and> map_option (\<lambda>(r, s). seeks s)
       (removeWatermarkFromVideo (example_runtime (example_media 1 4)) clip)
     = Some [0, 1 / 4, 1 / 2, 3 / 4, 1]"
  by (simp add: pipeline_eval clip_def)

text \<open>
  C8.  An error event of the video element, at the load or while a seek is awaited,
  rejects the promise with the error \<^verbatim>\<open>Failed to load video\<close> and revokes the object URL
  at once (lines 29-32).  The recorder, however, was started at line 69 and is stopped at
  line 91 only, after the loop: when the third seek of a video fails, the job is rejected
  with the URL revoked and the recorder still recording.  And \<^verbatim>\<open>seekTo\<close> has no
  rejection: when no event answers the third seek, the promise is never settled and
  nothing is released.
\<close>

theorem failed_seek_keeps_recorder:
  "removeWatermarkFromVideo (broken_at (1 / 2)) clip =
     Some (Inl FailedToLoadVideo,
           \<lparr>urlCreated = True, urlRevoked = True, recorderState = Recording,
            seeks = [0, 1 / 4, 1 / 2], drawn = [7, 7], emitted = [Fin 0, Fin 25]\<rparr>)
   \<and> removeWatermarkFromVideo (stalled_at (1 / 2)) clip = None"
  by (simp add: pipeline_eval broken_at_def stalled_at_def clip_def)

text \<open>
  The same drift in the video of ten seconds at 25 frames per second: 251 frames are
  sampled, and the last of them at 9.999999999999963, not at the duration.
\<close>

lemma ten_seconds_stop_short:
  "map_option (\<lambda>(r, s). (length (seeks s), last (seeks s), length (bdata (projr r))))
     (removeWatermarkFromVideo (example_runtime (example_media 10 25)) clip)
     = Some (251, 5629499534213099 / 562949953421312, 251)"
  by (simp add: pipeline_eval clip_def)

section \<open>Claims about the scheduler\<close>




text \<open>
  C7.  The loop of \<^verbatim>\<open>processQueue\<close> catches the failure of every job, but the first
  \<^verbatim>\<open>Promise.all\<close> (lines 293-315) has no \<^verbatim>\<open>try\<close>: when \<^verbatim>\<open>loadImage\<close> rejects for
  one picture, \<^verbatim>\<open>processQueue\<close> ends with that rejection before any job is claimed.
  In the batch of five pictures of which two cannot be decoded, no job is ever
  processed: all five stay pending, also the three that could be completed.
\<close>

theorem preload_rejection_stops_batch:
  "map_option (\<lambda>(e, s). (e, map status (imageQueue s), processedCount s))
     (processQueue failing_decode_runtime five_images)
   = Some (Some LoadImageError, [Pending, Pending, Pending, Pending, Pending], 0)"
  by (rule five_images_failing_decode)

text \<open>
  The ceiling in a run that no upload interrupts.  In every state that a run of
  \<^verbatim>\<open>processQueue\<close> on a new batch passes through, at most \<^verbatim>\<open>concurrency = 3\<close> jobs are in
  Processing.  The loop variable is a multiple of 3 and the jobs in Processing lie in the
  chunk that starts there; every job of an earlier chunk is Completed or failed, every
  job of a later chunk is still Pending; and when the loop starts a chunk, all its jobs
  are Pending and are claimed in the same step, so that they are in Processing together.
\<close>

theorem bounded_concurrency:
  assumes "new_batch s0" and "snd (preload rt (imageQueue s0)) = []"
    and "reachable rt (entered rt s0) s"
  shows "processing_count (imageQueue s) \<le> concurrency \<and> concurrency = 3
       \<and> concurrency dvd loop_i s
       \<and> (\<forall>j < length (imageQueue s).
             (status (imageQueue s ! j) = Processing \<longrightarrow> in_slice (loop_i s) j)
             \<and> (j < loop_i s \<longrightarrow> terminal (status (imageQueue s ! j)))
             \<and> (loop_i s + concurrency \<le> j \<longrightarrow> status (imageQueue s ! j) = Pending))
       \<and> (\<not> awaiting s \<and> loop_i s < length (imageQueue s) \<longrightarrow>
             step rt s (dispatch s)
             \<and> (\<forall>j < length (imageQueue s). in_slice (loop_i s) j \<longrightarrow>
                   status (imageQueue s ! j) = Pending
                   \<and> status (imageQueue (dispatch s) ! j) = Processing))"
proof -
  let ?n = "length (imageQueue (entered rt s0))"
  from entered_untouched [OF assms(1,2)]
  have u: "\<forall>it \<in> set (imageQueue (entered rt s0)). untouched it"
    and c: "processedCount (entered rt s0) = 0"
    by simp_all
  from run_inv_reachable [OF assms(3) u c] have inv: "run_inv ?n s" .
  then have len: "length (imageQueue s) = ?n"
    by (simp add: run_inv_def)
  have item: "if j \<in> suspended s then claimed (imageQueue s ! j)
      else if j < loop_i s \<or> awaiting s \<and> in_slice (loop_i s) j
        then settled (imageQueue s ! j)
        else untouched (imageQueue s ! j)" if "j < ?n" for j
    using inv that by (simp add: run_inv_def)
  have sub: "suspended s \<subseteq> {j. j < ?n \<and> in_slice (loop_i s) j}"
    using inv by (simp add: run_inv_def)
  have idle: "suspended s = {}" if "\<not> awaiting s"
    using inv that by (simp add: run_inv_def)
  have a: "processing_count (imageQueue s) \<le> concurrency"
    by (rule processing_count_bound [OF inv])
  have b: "concurrency dvd loop_i s"
    using inv by (simp add: run_inv_def)
  have c1: "in_slice (loop_i s) j" if "j < ?n" "status (imageQueue s ! j) = Processing" for j
    using processing_in_chunk [OF inv that] sub by auto
  have c2: "terminal (status (imageQueue s ! j))" if "j < ?n" "j < loop_i s" for j
  proof -
    have "j \<notin> suspended s"
      using sub that(2) by (auto simp: in_slice_def)
    with item [OF that(1)] that(2) show ?thesis
      by (auto simp: settled_def terminal_def)
  qed
  have c3: "status (imageQueue s ! j) = Pending" if "j < ?n" "loop_i s + concurrency \<le> j" for j
  proof -
    have "j \<notin> suspended s" "\<not> j < loop_i s" "\<not> in_slice (loop_i s) j"
      using sub that(2) by (auto simp: in_slice_def)
    with item [OF that(1)] show ?thesis
      by (simp add: untouched_def fresh_def)
  qed
  have d: "status (imageQueue s ! j) = Pending
      \<and> status (imageQueue (dispatch s) ! j) = Processing"
    if "\<not> awaiting s" "j < ?n" "in_slice (loop_i s) j" for j
  proof -
    have "untouched (imageQueue s ! j)"
      using item [OF that(2)] idle [OF that(1)] that(1,3) by (simp add: in_slice_def)
    then have "status (imageQueue s ! j) = Pending"
      by (simp add: untouched_def fresh_def)
    then show ?thesis
      using that(2,3) by (simp add: dispatch_nth len claim_def set_status_def)
  qed
  have items: "\<forall>j < length (imageQueue s).
             (status (imageQueue s ! j) = Processing \<longrightarrow> in_slice (loop_i s) j)
             \<and> (j < loop_i s \<longrightarrow> terminal (status (imageQueue s ! j)))
             \<and> (loop_i s + concurrency \<le> j \<longrightarrow> status (imageQueue s ! j) = Pending)"
    unfolding len using c1 c2 c3 by blast
  have chunk: "\<not> awaiting s \<and> loop_i s < length (imageQueue s) \<longrightarrow>
             step rt s (dispatch s)
             \<and> (\<forall>j < length (imageQueue s). in_slice (loop_i s) j \<longrightarrow>
                   status (imageQueue s ! j) = Pending
                   \<and> status (imageQueue (dispatch s) ! j) = Processing)"
    unfolding len using d step_dispatch [of s rt] len by metis
  have three: "concurrency = 3"
    by (simp add: concurrency_def)
  from a three b items chunk show ?thesis
    by (intro conjI)
qed

theorem bounded_concurrency_witness:
  "map status (imageQueue (dispatch (start
       (entered (example_runtime (example_media 1 4)) five_images))))
     = [Processing, Processing, Processing, Pending, Pending]
   \<and> processing_count (imageQueue (dispatch (start
       (entered (example_runtime (example_media 1 4)) five_images)))) \<le> 3"
proof -
  let ?rt = "example_runtime (example_media 1 4)"
  let ?s = "start (entered ?rt five_images)"
  have "\<not> awaiting ?s" and "loop_i ?s < length (imageQueue ?s)"
    by (simp_all add: start_def entered_def preload_def five_images_def)
  then have "step ?rt ?s (dispatch ?s)"
    by (rule step_dispatch)
  then have r: "reachable ?rt (entered ?rt five_images) (dispatch ?s)"
    by (simp add: reachable_def)
  have st: "map status (imageQueue (dispatch ?s))
      = [Processing, Processing, Processing, Pending, Pending]"
    by (simp add: dispatch_def start_def entered_def preload_def preload_item_def
        five_images_def pending_item_def example_runtime_def in_slice_def concurrency_def
        claim_def set_status_def enumerate_eq_zip upt_rec)
  from bounded_concurrency [OF five_images_entered [THEN conjunct1]
      five_images_entered [THEN conjunct2] r]
  have "processing_count (imageQueue (dispatch ?s)) \<le> 3"
    by simp
  with st show ?thesis ..
qed

text \<open>
  C4.  The loop of \<^verbatim>\<open>processQueue\<close> reads the module variable \<^verbatim>\<open>imageQueue\<close> again in
  every iteration (line 318 and line 319).  When \<^verbatim>\<open>handleFiles\<close> replaces the queue
  while a call is suspended in its chunk, that call goes on at its own index in the new
  queue, beside the call that the new upload started.  Two videos are uploaded and
  claimed; six videos are uploaded and the new call claims the first three; the two
  videos of the first upload finish, and the first call, now at index 3, claims the
  last three of the new batch: all six jobs of the batch are in Processing, three by each
  call, and the second chunk has started before any job of the first has ended.
\<close>

theorem second_upload_exceeds_ceiling:
  "map_option (\<lambda>a. (map status (queue_items a), processing_count (queue_items a),
                       map run_i (runs a), map run_suspended (runs a)))
     (app_run (example_runtime (example_media 1 4)) overlapping_uploads app0)
   = Some ([Processing, Processing, Processing, Processing, Processing, Processing], 6,
           [3, 0], [[5, 6, 7], [2, 3, 4]])"
  by (simp add: app_eval pipeline_eval upt_rec)




end
